theory Spec2Isabelle
  imports Main "HOL-Library.AList" "HOL-Library.Char_ord" "HOL-Library.List_Lexorder"
    "HOL-Library.Multiset"
begin

section \<open>Python strings and paths\<close>

text \<open>
  Python strings are modelled as \<^typ>\<open>string\<close>.  Comparison of Python strings is
  lexicographic on code points, which is the order of \<open>List_Lexorder\<close> over \<open>Char_ord\<close>.
\<close>

text \<open>\<^verbatim>\<open>s.startswith(pre)\<close> and \<^verbatim>\<open>s.endswith(suf)\<close>.\<close>

definition py_startswith :: "string \<Rightarrow> string \<Rightarrow> bool" where
  "py_startswith s pre = (take (length pre) s = pre)"

definition py_endswith :: "string \<Rightarrow> string \<Rightarrow> bool" where
  "py_endswith s suf = (length suf \<le> length s \<and> drop (length s - length suf) s = suf)"

text \<open>\<^verbatim>\<open>sub in s\<close> for strings: some position of \<open>s\<close> starts with \<open>sub\<close>.\<close>

fun py_contains :: "string \<Rightarrow> string \<Rightarrow> bool" where
  "py_contains sub [] = (sub = [])"
| "py_contains sub (c # cs) = (take (length sub) (c # cs) = sub \<or> py_contains sub cs)"

text \<open>
  \<^verbatim>\<open>s.split(sep)\<close> with a non-empty separator: a left-to-right scan for non-overlapping
  occurrences of \<open>sep\<close>.  The result is never empty; \<^verbatim>\<open>''.split(sep)\<close> is \<^verbatim>\<open>['']\<close>.
\<close>

fun cons_first :: "char \<Rightarrow> string list \<Rightarrow> string list" where
  "cons_first c [] = [[c]]"
| "cons_first c (p # ps) = (c # p) # ps"

function py_split :: "string \<Rightarrow> string \<Rightarrow> string list" where
  "py_split sep [] = [[]]"
| "py_split sep (c # cs) =
     (if sep \<noteq> [] \<and> take (length sep) (c # cs) = sep
      then [] # py_split sep (drop (length sep) (c # cs))
      else cons_first c (py_split sep cs))"
  by pat_completeness auto
termination
  by (relation "measure (\<lambda>(sep, s). length s)") auto

text \<open>\<^verbatim>\<open>os.path.basename\<close> (posixpath): everything after the last slash.\<close>

definition basename :: "string \<Rightarrow> string" where
  "basename p = rev (takeWhile (\<lambda>c. c \<noteq> CHR ''/'') (rev p))"

text \<open>
  \<^verbatim>\<open>os.path.join(a, *p)\<close> (posixpath): a component that starts with a slash replaces what
  has been joined so far; otherwise components are separated by one slash.
\<close>

definition join_step :: "string \<Rightarrow> string \<Rightarrow> string" where
  "join_step path b =
     (if py_startswith b ''/'' then b
      else if path = [] \<or> py_endswith path ''/'' then path @ b
      else path @ ''/'' @ b)"

definition path_join :: "string \<Rightarrow> string list \<Rightarrow> string" where
  "path_join a p = foldl join_step a p"

section \<open>Errors\<close>

text \<open>
  Every \<^verbatim>\<open>assert\<close> and \<^verbatim>\<open>raise\<close> of the source is a constructor; its arguments are the
  values the source interpolates into the message.
\<close>

datatype error =
    Expected_absolute_identifier string
      \<comment> \<open>AssertionError: \<^verbatim>\<open>"Expected absolute identifier: %r" % ident\<close>\<close>
  | Unpack_ValueError
      \<comment> \<open>ValueError of \<^verbatim>\<open>alias, package_and_target = ident.split('//')\<close>\<close>
  | No_project_with_alias string
      \<comment> \<open>AssertionError: \<^verbatim>\<open>"No project with alias %r" % alias\<close>\<close>
  | Too_many_colons string
      \<comment> \<open>Exception: \<^verbatim>\<open>'Too many colons in identifier: %r' % ident\<close>\<close>
  | Unknown_package string
      \<comment> \<open>AssertionError: \<^verbatim>\<open>"Reference to unknown package: %r" % ident\<close>\<close>
  | Target_not_found string string
      \<comment> \<open>AssertionError: \<^verbatim>\<open>"Target %s not found in package %s" %
            (target_name, self.alias + '//' + pkg_path)\<close>\<close>
  | Unexpected_ident string
      \<comment> \<open>Exception: \<^verbatim>\<open>'Unexpected ident: %r' % ident\<close>\<close>
  | Rule_defined_incompatibly string
      \<comment> \<open>AssertionError: \<^verbatim>\<open>"ninja rule %s defined incompatibly in multiple places" % k\<close>\<close>
  | Conflicting_rules "string set"
      \<comment> \<open>AssertionError: \<^verbatim>\<open>"Conflicting rules produce outputs %r" % output_key\<close>\<close>
  | Evaluate_error string
      \<comment> \<open>whatever \<^verbatim>\<open>concrete_target.evaluate(None)\<close> raises\<close>
  | Writer_error string
      \<comment> \<open>whatever a call of the syntax writer, or of the file object under it, raises\<close>

text \<open>
  The text of the one message that is formatted with \<^verbatim>\<open>%s\<close> only, so that it is
  determined character by character.
\<close>

definition target_not_found_message :: "string \<Rightarrow> string \<Rightarrow> string" where
  "target_not_found_message target_name qualified_package =
     ''Target '' @ target_name @ '' not found in package '' @ qualified_package"

section \<open>Build steps, products and targets\<close>

text \<open>
  A ninja dict is the keyword-argument dict of one \<^verbatim>\<open>writer.build\<close> call.  Equality of
  records is the field-for-field equality of \<^verbatim>\<open>prev_dict == ninja_dict\<close>.
\<close>

record ninja_dict =
  outputs :: "string list"
  rule :: string
  inputs :: "string list option"
  implicit :: "string list option"
  order_only :: "string list option"
  variables :: "(string \<times> string) list option"

text \<open>A low-level rule definition is a dict from attribute names to strings.\<close>

type_synonym rule_dict = "string \<rightharpoonup> string"

text \<open>
  The classes \<^verbatim>\<open>Env\<close>, \<^verbatim>\<open>Product\<close> and \<^verbatim>\<open>Target\<close> live outside the files modelled here; each
  is represented by what \<^verbatim>\<open>output.py\<close> and \<^verbatim>\<open>project.py\<close> read from it.  An environment
  has its \<^verbatim>\<open>digest\<close> and its \<^verbatim>\<open>readout_all()\<close>, the values already in their \<^verbatim>\<open>%r\<close> form.
\<close>

record environment =
  digest :: string
  readout_all :: "(string \<times> string) list"

record product =
  ninja_dicts :: "ninja_dict list"

text \<open>
  A product map is the dict \<^verbatim>\<open>(target, env) -> [Product]\<close> in iteration order; the
  target of a key is represented by its \<^verbatim>\<open>ident\<close>, the only attribute read from it.
\<close>

type_synonym product_map = "((string \<times> environment option) \<times> product list) list"

text \<open>
  A target carries its name, its identifier, whether it is concrete, and the outcome of
  \<^verbatim>\<open>evaluate(None)\<close>: the product map, or the error raised.
\<close>

record target =
  name :: string
  ident :: string
  concrete :: bool
  evaluate :: "error + product_map"

section \<open>Projects and packages\<close>

text \<open>
  Dicts whose iteration order the code observes are association lists in insertion
  order.  A package's back reference to its project is passed as an argument where a
  method of \<^verbatim>\<open>Package\<close> reads it.
\<close>

record package =
  relpath :: string
  targets :: "(string \<times> target) list"

datatype project = Project
  (root: string)
  (build_dir: string)
  (project_alias: string)
  (subprojects: "(string \<times> project) list")
  (named_envs: "(string \<times> environment) list")
  (packages: "(string \<times> package) list")
  (ninja_rules: "(string \<times> rule_dict) list")

text \<open>\<^verbatim>\<open>Project.__init__\<close>.\<close>

definition cobble_symlink_product :: rule_dict where
  "cobble_symlink_product =
     [''command'' \<mapsto> ''ln -sf $target $out'', ''description'' \<mapsto> ''SYMLINK $out'']"

definition Project_init :: "string \<Rightarrow> string \<Rightarrow> string \<Rightarrow> project" where
  "Project_init root' build_dir' alias' =
     Project root' build_dir' alias' [] [] []
       [(''cobble_symlink_product'', cobble_symlink_product)]"

text \<open>\<^verbatim>\<open>next(filter(None, xs), None)\<close>: the first element that is not \<^verbatim>\<open>None\<close>.\<close>

fun first_some :: "'a option list \<Rightarrow> 'a option" where
  "first_some [] = None"
| "first_some (None # xs) = first_some xs"
| "first_some (Some x # xs) = Some x"

text \<open>A subproject is smaller than the project that holds it.\<close>

lemma size_subproject [termination_simp]:
  "(k, p) \<in> set (subprojects self) \<Longrightarrow> size p < size self"
proof (cases self)
  case (Project r b a subs envs pkgs rules)
  assume "(k, p) \<in> set (subprojects self)"
  with Project have mem: "(k, p) \<in> set subs" by simp
  have "size p \<le> size_prod (\<lambda>x. 0) size (k, p)" by simp
  with mem have "size p \<le> size_list (size_prod (\<lambda>x. 0) size) subs"
    by (rule size_list_estimation')
  with Project show ?thesis by simp
qed

text \<open>\<^verbatim>\<open>Project.find_project\<close>.\<close>

fun find_project :: "project \<Rightarrow> string \<Rightarrow> project option" where
  "find_project self a =
     (if a = [] \<or> a = project_alias self then Some self
      else first_some (map (\<lambda>p. find_project p a) (map snd (subprojects self))))"

text \<open>
  The last part of \<^verbatim>\<open>Project.find_target\<close> (the two asserts and the return), once the
  package path and the target name are known.
\<close>

definition lookup_target :: "project \<Rightarrow> string \<Rightarrow> string \<Rightarrow> string \<Rightarrow> error + target" where
  "lookup_target self ident' pkg_path target_name =
     (case map_of (packages self) pkg_path of
        None \<Rightarrow> Inl (Unknown_package ident')
      | Some pkg \<Rightarrow>
          (case map_of (targets pkg) target_name of
             None \<Rightarrow> Inl (Target_not_found target_name (project_alias self @ ''//'' @ pkg_path))
           | Some t \<Rightarrow> Inr t))"

text \<open>
  The middle part of \<^verbatim>\<open>Project.find_target\<close>: counting the colons of the remainder and
  choosing the package path and the target name.
\<close>

definition resolve_remainder :: "project \<Rightarrow> string \<Rightarrow> string \<Rightarrow> error + target" where
  "resolve_remainder self ident' package_and_target =
     (let colons_in_remainder = count_list package_and_target CHR '':'' in
      if colons_in_remainder = 0 then
        lookup_target self ident' package_and_target (basename package_and_target)
      else if colons_in_remainder = 1 then
        (case py_split '':'' package_and_target of
           [pkg_path, target_name] \<Rightarrow> lookup_target self ident' pkg_path target_name
         | _ \<Rightarrow> Inl Unpack_ValueError)
      else Inl (Too_many_colons ident'))"

text \<open>
  \<^verbatim>\<open>Project.find_target\<close>.  The recursive call is on an identifier that starts with
  \<^verbatim>\<open>//\<close>, whose alias part is empty.
\<close>

function find_target :: "project \<Rightarrow> string \<Rightarrow> error + target" where
  "find_target self ident' =
     (if \<not> py_contains ''//'' ident' then Inl (Expected_absolute_identifier ident')
      else
        (case py_split ''//'' ident' of
           [a, package_and_target] \<Rightarrow>
             if a \<noteq> [] then
               (case find_project self a of
                  None \<Rightarrow> Inl (No_project_with_alias a)
                | Some project \<Rightarrow> find_target project (''//'' @ package_and_target))
             else resolve_remainder self ident' package_and_target
         | _ \<Rightarrow> Inl Unpack_ValueError))"
  by pat_completeness auto
termination
  by (relation "measure (\<lambda>(self, i). if hd (py_split ''//'' i) = [] then 0 else 1)") auto

text \<open>\<^verbatim>\<open>Package.make_absolute\<close> and \<^verbatim>\<open>Package.find_target\<close>, for a package of \<open>project\<close>.\<close>

definition make_absolute :: "project \<Rightarrow> package \<Rightarrow> string \<Rightarrow> error + string" where
  "make_absolute project self ident' =
     (if py_startswith ident' '':'' then Inr (project_alias project @ ''//'' @ relpath self @ ident')
      else if py_startswith ident' ''//'' then Inr (project_alias project @ ident')
      else if py_contains ''//'' ident' then Inr ident'
      else Inl (Unexpected_ident ident'))"

definition package_find_target :: "project \<Rightarrow> package \<Rightarrow> string \<Rightarrow> error + target" where
  "package_find_target project self ident' =
     (if py_startswith ident' '':''
      then find_target project (project_alias project @ ''//'' @ relpath self @ ident')
      else find_target project ident')"

text \<open>
  \<^verbatim>\<open>Project.add_ninja_rules\<close>.  The loop mutates \<^verbatim>\<open>self.ninja_rules\<close> as it goes, so a
  failing assert leaves the entries added before it: the rules registered so far are
  returned together with the outcome.
\<close>

fun add_ninja_rules_loop ::
  "(string \<times> rule_dict) list \<Rightarrow> (string \<times> rule_dict) list \<Rightarrow>
   error option \<times> (string \<times> rule_dict) list" where
  "add_ninja_rules_loop [] registered = (None, registered)"
| "add_ninja_rules_loop ((k, v) # rules) registered =
     (case map_of registered k of
        Some w \<Rightarrow>
          if v = w then add_ninja_rules_loop rules registered
          else (Some (Rule_defined_incompatibly k), registered)
      | None \<Rightarrow> add_ninja_rules_loop rules (registered @ [(k, v)]))"

definition add_ninja_rules :: "project \<Rightarrow> (string \<times> rule_dict) list \<Rightarrow> error option \<times> project" where
  "add_ninja_rules self rules =
     (case add_ninja_rules_loop rules (ninja_rules self) of
        (outcome, registered) \<Rightarrow>
          (outcome,
           Project (root self) (build_dir self) (project_alias self) (subprojects self)
             (named_envs self) (packages self) registered))"

text \<open>\<^verbatim>\<open>Project.inpath\<close>, \<^verbatim>\<open>Package.inpath\<close>, \<^verbatim>\<open>Project.files\<close>.\<close>

definition inpath :: "project \<Rightarrow> string list \<Rightarrow> string" where
  "inpath self parts = path_join (root self) parts"

definition package_inpath :: "project \<Rightarrow> package \<Rightarrow> string list \<Rightarrow> string" where
  "package_inpath project self parts = inpath project (relpath self # parts)"

definition files :: "project \<Rightarrow> string list" where
  "files self =
     inpath self [''BUILD.conf''] #
     map (\<lambda>p. package_inpath self p [''BUILD'']) (map snd (packages self))"

text \<open>\<^verbatim>\<open>Project.targets\<close> and \<^verbatim>\<open>Project.concrete_targets\<close>.\<close>

definition project_targets :: "project \<Rightarrow> target list" where
  "project_targets self = concat (map (\<lambda>p. map snd (targets p)) (map snd (packages self)))"

definition concrete_targets :: "project \<Rightarrow> target list" where
  "concrete_targets self = filter concrete (project_targets self)"

section \<open>Writing the build script\<close>

text \<open>
  The syntax writer is outside the files modelled here.  A script is the sequence of
  the writer's calls: \<^verbatim>\<open>comment\<close> (wrapped or not), \<^verbatim>\<open>newline\<close>, \<^verbatim>\<open>rule\<close> and \<^verbatim>\<open>build\<close>.
\<close>

datatype item =
    Comment string
  | Comment_unwrapped string
  | Newline
  | Rule string rule_dict
  | Build ninja_dict

type_synonym script = "item list"

text \<open>The file system maps a path to the script written to the file at that path.\<close>

type_synonym filesystem = "string \<rightharpoonup> script"

text \<open>
  \<^verbatim>\<open>_get_project_files\<close>.  The inner function fills one dict, keyed by alias, passed
  down the recursion; a project whose alias is already a key adds nothing.
\<close>

fun get_subproject_files ::
  "project \<Rightarrow> (string \<times> string list) list \<Rightarrow> (string \<times> string list) list" where
  "get_subproject_files p subproject_files =
     (let visited = fold get_subproject_files (map snd (subprojects p)) subproject_files in
      if map_of visited (project_alias p) = None
      then visited @ [(project_alias p, files p)]
      else visited)"

definition get_project_files :: "project \<Rightarrow> string list" where
  "get_project_files project = sort (concat (map snd (get_subproject_files project [])))"

text \<open>The three dicts of the first product pass.\<close>

record collector =
  unique_products_by_target :: "(string \<times> (string \<times> ninja_dict list) list) list"
  unique_products_by_output :: "string set \<rightharpoonup> ninja_dict"
  environments_by_digest :: "(string \<times> environment option) list"

definition empty_collector :: collector where
  "empty_collector =
     \<lparr>unique_products_by_target = [], unique_products_by_output = Map.empty,
      environments_by_digest = []\<rparr>"

text \<open>
  The two inner loops (over the products of one key and over the ninja dicts of each
  product) run over the concatenation of the ninja dicts.  The assert is the only exit.
\<close>

fun collect_ninja_dicts ::
  "ninja_dict list \<Rightarrow> (string set \<rightharpoonup> ninja_dict) \<Rightarrow> ninja_dict list \<Rightarrow>
   error + (string set \<rightharpoonup> ninja_dict) \<times> ninja_dict list" where
  "collect_ninja_dicts [] by_output flat = Inr (by_output, flat)"
| "collect_ninja_dicts (d # ds) by_output flat =
     (let output_key = set (outputs d) in
      case by_output output_key of
        Some prev_dict \<Rightarrow>
          if prev_dict = d then collect_ninja_dicts ds by_output flat
          else Inl (Conflicting_rules output_key)
      | None \<Rightarrow> collect_ninja_dicts ds (by_output(output_key \<mapsto> d)) (flat @ [d]))"

text \<open>\<^verbatim>\<open>unique_products_by_target[ti][ed] = flat\<close> on a \<^verbatim>\<open>defaultdict\<close> of dicts.\<close>

definition set_target_env ::
  "string \<Rightarrow> string \<Rightarrow> ninja_dict list \<Rightarrow> (string \<times> (string \<times> ninja_dict list) list) list \<Rightarrow>
   (string \<times> (string \<times> ninja_dict list) list) list" where
  "set_target_env ti ed flat by_target =
     AList.update ti
       (AList.update ed flat (case map_of by_target ti of None \<Rightarrow> [] | Some emap \<Rightarrow> emap))
       by_target"

text \<open>The loop over the items of one product map.\<close>

fun collect_product_map :: "product_map \<Rightarrow> collector \<Rightarrow> error + collector" where
  "collect_product_map [] c = Inr c"
| "collect_product_map (((ti, env), products) # rest) c =
     (let ed = (case env of Some e \<Rightarrow> digest e | None \<Rightarrow> ''top'');
          by_digest = AList.update ed env (environments_by_digest c)
      in case collect_ninja_dicts (concat (map ninja_dicts products))
                (unique_products_by_output c) [] of
           Inl e \<Rightarrow> Inl e
         | Inr (by_output, flat) \<Rightarrow>
             collect_product_map rest
               \<lparr>unique_products_by_target =
                  (if flat \<noteq> [] then set_target_env ti ed flat (unique_products_by_target c)
                   else unique_products_by_target c),
                unique_products_by_output = by_output,
                environments_by_digest = by_digest\<rparr>)"

text \<open>The loop over the concrete targets: the first product pass.\<close>

fun collect_targets :: "target list \<Rightarrow> collector \<Rightarrow> error + collector" where
  "collect_targets [] c = Inr c"
| "collect_targets (t # ts) c =
     (case evaluate t of
        Inl e \<Rightarrow> Inl e
      | Inr product_map \<Rightarrow>
          (case collect_product_map product_map c of
             Inl e \<Rightarrow> Inl e
           | Inr c' \<Rightarrow> collect_targets ts c'))"

text \<open>What is written before the first product pass.\<close>

definition regeneration_build :: "project \<Rightarrow> ninja_dict" where
  "regeneration_build project =
     \<lparr>outputs = [''build.ninja''], rule = ''cobble_generate_ninja'', inputs = None,
      implicit = Some (get_project_files project), order_only = None, variables = None\<rparr>"

definition header_items :: "project \<Rightarrow> script" where
  "header_items project =
     [Comment (''Generated using '' @ [CHR 0x27] @ ''cobble init'' @ [CHR 0x27] @
               '', do NOT edit by hand''),
      Comment (''project_path='' @ root project),
      Newline,
      Comment ''Automatic regeneration'',
      Rule ''cobble_generate_ninja''
        [''command'' \<mapsto> ''./cobble init --reinit '' @ root project,
         ''description'' \<mapsto> ''(cobbling something together)''],
      Build (regeneration_build project),
      Newline]"

definition rule_items :: "project \<Rightarrow> script" where
  "rule_items project =
     concat (map (\<lambda>(name', rule'). [Rule name' rule', Newline])
       (sort_key fst (ninja_rules project)))"

text \<open>The environment listing, written when \<^verbatim>\<open>dump_environments\<close> is set.\<close>

definition environment_listing :: "(string \<times> environment option) list \<Rightarrow> script" where
  "environment_listing by_digest =
     Comment ''ENVIRONMENT LISTING'' # Newline #
     concat (map (\<lambda>(digest', env).
        case env of
          None \<Rightarrow> []
        | Some e \<Rightarrow>
            Comment (''Environment '' @ digest') #
            map (\<lambda>(k, v). Comment_unwrapped (''env['' @ digest' @ '']['' @ k @ ''] = '' @ v))
              (readout_all e) @
            [Newline]) by_digest)"

text \<open>The second product pass.\<close>

definition target_items :: "string \<times> (string \<times> ninja_dict list) list \<Rightarrow> script" where
  "target_items = (\<lambda>(ti, emap).
     let env_count = length emap in
     (if env_count = 1 then [Comment (''---- target '' @ ti)] else []) @
     concat (map (\<lambda>(ed, products).
        (if env_count > 1 then [Comment (''---- target '' @ ti @ '' @ '' @ ed)] else []) @
        map Build products @ [Newline]) (sort_key fst emap)))"

definition product_items :: "collector \<Rightarrow> script" where
  "product_items c = concat (map target_items (sort_key fst (unique_products_by_target c)))"

text \<open>
  The writer is created on the file object of \<^verbatim>\<open>open('.build.ninja.tmp', 'w')\<close>: opening
  creates or truncates the temporary file.  The file object is buffered, and the function
  asks it to pass its buffer on only through \<^verbatim>\<open>writer.close()\<close>, after the last item.  So
  a run keeps the items the writer has accepted apart from the file.  When an exception
  leaves the function, the file holds the first \<open>flushed\<close> of them in full, where
  \<open>flushed\<close>, a parameter of the run, says how far the file object has passed its buffer on
  by itself; it may be \<open>0\<close>, and the file empty.

  A call of the writer may itself raise.  The parameter \<open>fault\<close> says which call raises
  what, if any; the calls are counted from \<open>0\<close>, one for each item, and \<^verbatim>\<open>writer.close()\<close> is
  the call after the last item.
\<close>

definition open_tmp :: "filesystem \<Rightarrow> filesystem" where
  "open_tmp fs = fs(''.build.ninja.tmp'' \<mapsto> [])"

definition raised :: "(nat \<times> error) option \<Rightarrow> nat \<Rightarrow> error option" where
  "raised fault call =
     (case fault of
        None \<Rightarrow> None
      | Some (n, e) \<Rightarrow> if n = call then Some e else None)"

text \<open>
  The writer takes items one call after the other, after those it has \<open>accepted\<close>; the
  result is the exception that stopped it, if any, and the items accepted by then.
\<close>

fun write_items ::
  "(nat \<times> error) option \<Rightarrow> script \<Rightarrow> script \<Rightarrow> error option \<times> script" where
  "write_items fault accepted [] = (None, accepted)"
| "write_items fault accepted (x # xs) =
     (case raised fault (length accepted) of
        Some e \<Rightarrow> (Some e, accepted)
      | None \<Rightarrow> write_items fault (accepted @ [x]) xs)"

text \<open>
  The file system an exception leaves: the temporary file stays, with what has reached
  it.  Nothing in the function handles an exception or removes the file.
\<close>

definition left_behind :: "nat \<Rightarrow> script \<Rightarrow> filesystem \<Rightarrow> filesystem" where
  "left_behind flushed accepted fs = fs(''.build.ninja.tmp'' \<mapsto> take flushed accepted)"

text \<open>\<^verbatim>\<open>writer.close()\<close> passes every accepted item on to the file.\<close>

definition close_tmp :: "script \<Rightarrow> filesystem \<Rightarrow> filesystem" where
  "close_tmp accepted fs = fs(''.build.ninja.tmp'' \<mapsto> accepted)"

text \<open>
  \<^verbatim>\<open>os.rename\<close> moves the temporary file onto the final path.  Failures of \<^verbatim>\<open>open\<close> and of
  \<^verbatim>\<open>os.rename\<close> are not modelled.
\<close>

definition rename_tmp :: "filesystem \<Rightarrow> filesystem" where
  "rename_tmp fs = (fs(''build.ninja'' := fs ''.build.ninja.tmp''))(''.build.ninja.tmp'' := None)"

text \<open>
  \<^verbatim>\<open>write_ninja_files\<close>: the outcome (\<open>None\<close> when the function returns) and the file
  system it leaves.  The header and the rules are written, then the products are
  collected, then the listing and the products are written, then the writer is closed
  and the file renamed.  An exception leaves the function at once, with no handler.
\<close>

definition write_ninja_files ::
  "(nat \<times> error) option \<Rightarrow> nat \<Rightarrow> project \<Rightarrow> bool \<Rightarrow> filesystem \<Rightarrow>
   error option \<times> filesystem" where
  "write_ninja_files fault flushed project dump_environments fs =
     (let fs1 = open_tmp fs
      in case write_items fault [] (header_items project @ rule_items project) of
           (Some e, accepted) \<Rightarrow> (Some e, left_behind flushed accepted fs1)
         | (None, accepted) \<Rightarrow>
             (case collect_targets (concrete_targets project) empty_collector of
                Inl e \<Rightarrow> (Some e, left_behind flushed accepted fs1)
              | Inr c \<Rightarrow>
                  (case write_items fault accepted
                          ((if dump_environments
                            then environment_listing (environments_by_digest c)
                            else []) @
                           product_items c) of
                     (Some e, accepted') \<Rightarrow> (Some e, left_behind flushed accepted' fs1)
                   | (None, accepted') \<Rightarrow>
                       (case raised fault (length accepted') of
                          Some e \<Rightarrow> (Some e, left_behind flushed accepted' fs1)
                        | None \<Rightarrow> (None, rename_tmp (close_tmp accepted' fs1))))))"


section \<open>Auxiliary notions for the statements\<close>

declare find_target.simps [simp del]
declare find_project.simps [simp del]

text \<open>The projects of a tree in depth-first order, a project before its subprojects.\<close>

fun all_projects :: "project \<Rightarrow> project list" where
  "all_projects p = p # concat (map all_projects (map snd (subprojects p)))"

text \<open>A small project tree used to instantiate the statements.\<close>

definition example_target :: "string \<Rightarrow> string \<Rightarrow> target" where
  "example_target n i = \<lparr>name = n, ident = i, concrete = False, evaluate = Inr []\<rparr>"

definition example_sub :: project where
  "example_sub = Project ''sub'' ''out'' ''sub'' [] []
     [(''x'', \<lparr>relpath = ''x'', targets = [(''y'', example_target ''y'' ''sub//x:y'')]\<rparr>)] []"

definition example_root :: project where
  "example_root = Project ''.'' ''out'' [] [(''sub'', example_sub)] []
     [(''a'', \<lparr>relpath = ''a'', targets = [(''a'', example_target ''a'' ''//a:a'')]\<rparr>),
      (''a/b'', \<lparr>relpath = ''a/b'', targets = [(''foo'', example_target ''foo'' ''//a/b:foo'')]\<rparr>)]
     []"

definition example_package :: package where
  "example_package =
     \<lparr>relpath = ''a/b'', targets = [(''foo'', example_target ''foo'' ''//a/b:foo'')]\<rparr>"

section \<open>Facts about strings\<close>

lemma py_split_not_Nil: "py_split sep s \<noteq> []"
  by (induction sep s rule: py_split.induct) (auto split: list.splits elim: cons_first.elims)

lemma py_split_no_sep: "\<not> py_contains sep s \<Longrightarrow> py_split sep s = [s]"
  by (induction s) auto

lemma py_split_single: "py_split sep s = [x] \<Longrightarrow> x = s"
proof (induction sep s arbitrary: x rule: py_split.induct)
  case (1 sep)
  then show ?case by simp
next
  case (2 sep c cs)
  show ?case
  proof (cases "sep \<noteq> [] \<and> take (length sep) (c # cs) = sep")
    case True
    with "2.prems" show ?thesis by (simp add: py_split_not_Nil)
  next
    case False
    with "2.prems" have cf: "cons_first c (py_split sep cs) = [x]" by auto
    then obtain y where y: "py_split sep cs = [y]" "x = c # y"
      by (cases "py_split sep cs") (auto simp: py_split_not_Nil)
    with "2.IH"(2)[OF False] show ?thesis by simp
  qed
qed

lemma py_split_dslash_prefix: "py_split ''//'' (''//'' @ r) = [] # py_split ''//'' r"
  by simp

lemma py_split_alias:
  "CHR ''/'' \<notin> set a \<Longrightarrow> py_split ''//'' (a @ ''//'' @ r) = a # py_split ''//'' r"
  by (induction a) auto

lemma py_contains_append: "py_contains sub s \<Longrightarrow> py_contains sub (p @ s)"
  by (induction p) auto

lemma py_contains_dslash_prefix: "py_contains ''//'' (a @ ''//'' @ r)"
  by (rule py_contains_append) simp

lemma py_contains_colon: "py_contains '':'' s \<longleftrightarrow> CHR '':'' \<in> set s"
  by (induction s) auto

lemma py_split_colon:
  "CHR '':'' \<notin> set p \<Longrightarrow> py_split '':'' (p @ CHR '':'' # t) = p # py_split '':'' t"
  by (induction p) auto

lemma basename_no_slash: "CHR ''/'' \<notin> set b \<Longrightarrow> basename (d @ CHR ''/'' # b) = b"
proof -
  assume b: "CHR ''/'' \<notin> set b"
  then have "takeWhile (\<lambda>c. c \<noteq> CHR ''/'') (rev b @ CHR ''/'' # rev d) = rev b"
    by (subst takeWhile_append2) auto
  then show ?thesis by (simp add: basename_def)
qed

lemma basename_plain: "CHR ''/'' \<notin> set b \<Longrightarrow> basename b = b"
proof -
  assume "CHR ''/'' \<notin> set b"
  then have "takeWhile (\<lambda>c. c \<noteq> CHR ''/'') (rev b) = rev b"
    by (intro takeWhile_eq_all_conv[THEN iffD2]) auto
  then show ?thesis unfolding basename_def by (simp only: rev_rev_ident)
qed

section \<open>Facts about the project tree\<close>

lemma find_append_case:
  "List.find P (xs @ ys) = (case List.find P xs of None \<Rightarrow> List.find P ys | Some x \<Rightarrow> Some x)"
  by (induction xs) auto

lemma first_some_find:
  "(\<And>p. p \<in> set ps \<Longrightarrow> f p = List.find P (g p)) \<Longrightarrow>
   first_some (map f ps) = List.find P (concat (map g ps))"
proof (induction ps)
  case Nil
  then show ?case by simp
next
  case (Cons p ps)
  then show ?case
    by (cases "List.find P (g p)") (auto simp: find_append_case)
qed

lemma find_project_preorder:
  "a \<noteq> [] \<Longrightarrow> find_project self a = List.find (\<lambda>p. project_alias p = a) (all_projects self)"
proof (induction self a rule: find_project.induct)
  case (1 self a)
  show ?case
  proof (cases "a = project_alias self")
    case True
    then show ?thesis by (subst find_project.simps) simp
  next
    case False
    have "first_some (map (\<lambda>p. find_project p a) (map snd (subprojects self))) =
          List.find (\<lambda>p. project_alias p = a) (concat (map all_projects (map snd (subprojects self))))"
      by (rule first_some_find) (use "1.IH" "1.prems" False in auto)
    with False "1.prems" show ?thesis by (subst find_project.simps) simp
  qed
qed


lemma find_target_local:
  assumes "\<not> py_contains ''//'' r"
  shows "find_target self (''//'' @ r) = resolve_remainder self (''//'' @ r) r"
proof -
  have split: "py_split ''//'' (''//'' @ r) = [[], r]"
    by (simp only: py_split_dslash_prefix py_split_no_sep[OF assms])
  show ?thesis
    using split
    by (subst find_target.simps)
       (simp add: py_contains_dslash_prefix[of "[]", simplified] del: py_split.simps)
qed

lemma find_target_aliased:
  assumes "CHR ''/'' \<notin> set a" and "a \<noteq> []"
  shows "find_target self (a @ ''//'' @ r) =
     (case py_split ''//'' r of
        [x] \<Rightarrow> (case find_project self a of
                  None \<Rightarrow> Inl (No_project_with_alias a)
                | Some q \<Rightarrow> find_target q (''//'' @ r))
      | _ \<Rightarrow> Inl Unpack_ValueError)"
proof -
  have split: "py_split ''//'' (a @ ''//'' @ r) = a # py_split ''//'' r"
    using assms(1) by (rule py_split_alias)
  have c: "py_contains ''//'' (a @ ''//'' @ r)" by (rule py_contains_dslash_prefix)
  show ?thesis
  proof (cases "py_split ''//'' r")
    case Nil
    then show ?thesis by (simp add: py_split_not_Nil)
  next
    case (Cons x xs)
    show ?thesis
    proof (cases xs)
      case Nil
      with Cons have "x = r" by (simp add: py_split_single)
      with Cons Nil split c assms(2) show ?thesis
        by (subst find_target.simps) (simp del: py_split.simps find_project.simps)
    next
      case (Cons y ys)
      with \<open>py_split ''//'' r = x # xs\<close> split c show ?thesis
        by (subst find_target.simps) (simp del: py_split.simps)
    qed
  qed
qed

lemma resolve_remainder_plain:
  "CHR '':'' \<notin> set r \<Longrightarrow>
   resolve_remainder self i r = lookup_target self i r (basename r)"
  by (simp add: resolve_remainder_def count_list_0_iff)

lemma resolve_remainder_explicit:
  "CHR '':'' \<notin> set p \<Longrightarrow> CHR '':'' \<notin> set t \<Longrightarrow>
   resolve_remainder self i (p @ CHR '':'' # t) = lookup_target self i p t"
  by (simp add: resolve_remainder_def count_list_append count_notin py_split_colon
      py_split_no_sep py_contains_colon del: py_split.simps)

lemma find_project_example_sub: "find_project example_root ''sub'' = Some example_sub"
proof -
  have "find_project example_sub ''sub'' = Some example_sub"
    by (subst find_project.simps) (simp add: example_sub_def)
  then show ?thesis
    by (subst find_project.simps) (simp add: example_root_def)
qed

section \<open>Resolving identifiers\<close>

text \<open>
  C4.  For an absolute identifier with an empty alias, \<^verbatim>\<open>Project.find_target\<close> splits the
  part after \<^verbatim>\<open>//\<close> on the colon.  With no colon the target name is the last path
  component of the package path (\<^verbatim>\<open>basename\<close>: what follows the last slash); with one
  colon the package path and the target name are the two sides of it; with more than
  one colon resolution fails with the too-many-colons error, as for \<^verbatim>\<open>//a:b:c\<close>.
\<close>

theorem find_target_colons:
  "(\<not> py_contains ''//'' r \<and> CHR '':'' \<notin> set r \<longrightarrow>
      find_target self (''//'' @ r) = lookup_target self (''//'' @ r) r (basename r)) \<and>
   (CHR ''/'' \<notin> set b \<longrightarrow> basename (d @ CHR ''/'' # b) = b \<and> basename b = b) \<and>
   (\<not> py_contains ''//'' (p @ CHR '':'' # t) \<and> CHR '':'' \<notin> set p \<and> CHR '':'' \<notin> set t \<longrightarrow>
      find_target self (''//'' @ p @ CHR '':'' # t) =
        lookup_target self (''//'' @ p @ CHR '':'' # t) p t) \<and>
   (\<not> py_contains ''//'' m \<and> 1 < count_list m CHR '':'' \<longrightarrow>
      find_target self (''//'' @ m) = Inl (Too_many_colons (''//'' @ m))) \<and>
   find_target self ''//a:b:c'' = Inl (Too_many_colons ''//a:b:c'')"
proof (intro conjI impI)
  assume "\<not> py_contains ''//'' r \<and> CHR '':'' \<notin> set r"
  then have a: "\<not> py_contains ''//'' r" and b: "CHR '':'' \<notin> set r" by simp_all
  show "find_target self (''//'' @ r) = lookup_target self (''//'' @ r) r (basename r)"
    unfolding find_target_local[OF a] by (rule resolve_remainder_plain[OF b])
next
  assume "CHR ''/'' \<notin> set b"
  then show "basename (d @ CHR ''/'' # b) = b" by (rule basename_no_slash)
next
  assume "CHR ''/'' \<notin> set b"
  then show "basename b = b" by (rule basename_plain)
next
  assume "\<not> py_contains ''//'' (p @ CHR '':'' # t) \<and> CHR '':'' \<notin> set p \<and> CHR '':'' \<notin> set t"
  then have a: "\<not> py_contains ''//'' (p @ CHR '':'' # t)"
    and b: "CHR '':'' \<notin> set p" and c: "CHR '':'' \<notin> set t" by simp_all
  show "find_target self (''//'' @ p @ CHR '':'' # t) =
        lookup_target self (''//'' @ p @ CHR '':'' # t) p t"
    unfolding find_target_local[OF a] by (rule resolve_remainder_explicit[OF b c])
next
  assume "\<not> py_contains ''//'' m \<and> 1 < count_list m CHR '':''"
  then have a: "\<not> py_contains ''//'' m" and b: "1 < count_list m CHR '':''" by simp_all
  show "find_target self (''//'' @ m) = Inl (Too_many_colons (''//'' @ m))"
    unfolding find_target_local[OF a] using b by (simp add: resolve_remainder_def)
next
  have "\<not> py_contains ''//'' ''a:b:c''" by simp
  from find_target_local[OF this, of self]
  show "find_target self ''//a:b:c'' = Inl (Too_many_colons ''//a:b:c'')"
    by (simp add: resolve_remainder_def)
qed

theorem find_target_colons_witness:
  "find_target example_root ''//a'' = Inr (example_target ''a'' ''//a:a'') \<and>
   basename ''a/b'' = ''b'' \<and>
   find_target example_root ''//a/b:foo'' = Inr (example_target ''foo'' ''//a/b:foo'') \<and>
   find_target example_root ''//a:b:c'' = Inl (Too_many_colons ''//a:b:c'')"
  using find_target_colons [of "''a''" example_root "''b''" "''a''" "''a/b''" "''foo''" "''a:b:c''"]
  by (simp add: lookup_target_def example_root_def basename_def)

text \<open>
  C6.  For an identifier \<^verbatim>\<open>alias//rest\<close> (the alias without a slash, the rest without
  \<^verbatim>\<open>//\<close>): when the alias is empty or the project's own, the rest is resolved in the
  project itself; otherwise it is resolved, under the identifier \<^verbatim>\<open>//rest\<close>, in the first
  project of the depth-first listing of the tree that bears the alias, and resolution
  fails when no project of the tree bears it.
\<close>

theorem find_target_alias:
  assumes "CHR ''/'' \<notin> set a" and "\<not> py_contains ''//'' r"
  shows "find_target self (a @ ''//'' @ r) =
     (if a = [] \<or> a = project_alias self then resolve_remainder self (''//'' @ r) r
      else case List.find (\<lambda>p. project_alias p = a) (all_projects self) of
             None \<Rightarrow> Inl (No_project_with_alias a)
           | Some p \<Rightarrow> resolve_remainder p (''//'' @ r) r)"
proof (cases "a = []")
  case True
  then show ?thesis using find_target_local[OF assms(2)] by simp
next
  case False
  have "find_target self (a @ ''//'' @ r) =
     (case find_project self a of
        None \<Rightarrow> Inl (No_project_with_alias a)
      | Some q \<Rightarrow> find_target q (''//'' @ r))"
    by (simp only: find_target_aliased[OF assms(1) False] py_split_no_sep[OF assms(2)] list.case)
  also have "\<dots> = (case find_project self a of
        None \<Rightarrow> Inl (No_project_with_alias a)
      | Some q \<Rightarrow> resolve_remainder q (''//'' @ r) r)"
    by (simp only: find_target_local[OF assms(2)])
  finally have eq: "find_target self (a @ ''//'' @ r) =
     (case find_project self a of
        None \<Rightarrow> Inl (No_project_with_alias a)
      | Some q \<Rightarrow> resolve_remainder q (''//'' @ r) r)" .
  show ?thesis
  proof (cases "a = project_alias self")
    case True
    then have "find_project self a = Some self" by (simp add: find_project.simps)
    with eq True show ?thesis by simp
  next
    case neq: False
    with eq False show ?thesis
      by (simp only: find_project_preorder[OF False] if_False simp_thms)
  qed
qed

theorem find_target_alias_witness:
  "find_target example_root ''//a:a'' = Inr (example_target ''a'' ''//a:a'') \<and>
   find_target example_sub ''sub//x:y'' = Inr (example_target ''y'' ''sub//x:y'') \<and>
   find_target example_root ''sub//x:y'' = Inr (example_target ''y'' ''sub//x:y'') \<and>
   find_target example_root ''nope//x:y'' = Inl (No_project_with_alias ''nope'')"
proof -
  have r1: "find_target example_root ''//a:a'' = Inr (example_target ''a'' ''//a:a'')"
    using find_target_alias [of "[]" "''a:a''" example_root]
    by (simp add: resolve_remainder_def lookup_target_def example_root_def)
  have r2: "find_target example_sub ''sub//x:y'' = Inr (example_target ''y'' ''sub//x:y'')"
    using find_target_alias [of "''sub''" "''x:y''" example_sub]
    by (simp add: resolve_remainder_def lookup_target_def example_sub_def)
  have r3: "find_target example_root ''sub//x:y'' = Inr (example_target ''y'' ''sub//x:y'')"
    using find_target_alias [of "''sub''" "''x:y''" example_root]
    by (simp add: resolve_remainder_def lookup_target_def example_root_def example_sub_def)
  have r4: "find_target example_root ''nope//x:y'' = Inl (No_project_with_alias ''nope'')"
    using find_target_alias [of "''nope''" "''x:y''" example_root]
    by (simp add: example_root_def example_sub_def)
  from r1 r2 r3 r4 show ?thesis by simp
qed

text \<open>
  C5.  For a package of a project and a target name \<open>t\<close>, the package-relative
  identifier \<^verbatim>\<open>:t\<close> is made absolute as the project's alias, \<^verbatim>\<open>//\<close>, the package's
  relative path and \<^verbatim>\<open>:t\<close>, and \<^verbatim>\<open>Package.find_target\<close> resolves exactly that identifier
  in the project; when the alias has no slash this is the resolution of \<^verbatim>\<open>//path:t\<close>.
\<close>

theorem package_find_target_relative:
  "make_absolute project pkg (CHR '':'' # t) =
     Inr (project_alias project @ ''//'' @ relpath pkg @ CHR '':'' # t) \<and>
   package_find_target project pkg (CHR '':'' # t) =
     find_target project (project_alias project @ ''//'' @ relpath pkg @ CHR '':'' # t) \<and>
   (CHR ''/'' \<notin> set (project_alias project) \<longrightarrow>
     package_find_target project pkg (CHR '':'' # t) =
       find_target project (''//'' @ relpath pkg @ CHR '':'' # t))"
proof (intro conjI impI)
  show "make_absolute project pkg (CHR '':'' # t) =
     Inr (project_alias project @ ''//'' @ relpath pkg @ CHR '':'' # t)"
    by (simp add: make_absolute_def py_startswith_def)
  show eq: "package_find_target project pkg (CHR '':'' # t) =
     find_target project (project_alias project @ ''//'' @ relpath pkg @ CHR '':'' # t)"
    by (simp add: package_find_target_def py_startswith_def del: find_target.simps)
  assume a: "CHR ''/'' \<notin> set (project_alias project)"
  define r where "r = relpath pkg @ CHR '':'' # t"
  show "package_find_target project pkg (CHR '':'' # t) =
       find_target project (''//'' @ relpath pkg @ CHR '':'' # t)"
  proof (cases "project_alias project = []")
    case True
    with eq show ?thesis by (simp del: find_target.simps)
  next
    case False
    have own: "find_project project (project_alias project) = Some project"
      by (simp add: find_project.simps)
    have l: "find_target project (project_alias project @ ''//'' @ r) =
       (case py_split ''//'' r of
          [x] \<Rightarrow> find_target project (''//'' @ r)
        | _ \<Rightarrow> Inl Unpack_ValueError)"
      by (simp only: find_target_aliased[OF a False] own option.case)
    have r: "find_target project (''//'' @ r) = Inl Unpack_ValueError"
      if "\<And>x. py_split ''//'' r \<noteq> [x]"
    proof -
      from that obtain x y ys where "py_split ''//'' r = x # y # ys"
        by (cases "py_split ''//'' r"; cases "tl (py_split ''//'' r)") (auto simp: py_split_not_Nil)
      then have "py_split ''//'' (''//'' @ r) = [] # x # y # ys"
        by (simp only: py_split_dslash_prefix)
      then show ?thesis
        by (subst find_target.simps)
          (simp add: py_contains_dslash_prefix[of "[]", simplified] del: py_split.simps)
    qed
    have "find_target project (project_alias project @ ''//'' @ r) = find_target project (''//'' @ r)"
    proof (cases "\<exists>x. py_split ''//'' r = [x]")
      case True
      then show ?thesis unfolding l by auto
    next
      case False
      then have nx: "\<And>x. py_split ''//'' r \<noteq> [x]" by simp
      then show ?thesis unfolding l r[OF nx]
        by (cases "py_split ''//'' r"; cases "tl (py_split ''//'' r)") auto
    qed
    then show ?thesis unfolding eq r_def by simp
  qed
qed


theorem package_find_target_relative_witness:
  "make_absolute example_root example_package '':foo'' = Inr ''//a/b:foo'' \<and>
   package_find_target example_root example_package '':foo'' =
     find_target example_root ''//a/b:foo'' \<and>
   package_find_target example_sub example_package '':foo'' =
     find_target example_sub ''//a/b:foo''"
proof -
  have a: "project_alias example_root = []" "project_alias example_sub = ''sub''"
    "relpath example_package = ''a/b''"
    by (simp_all add: example_root_def example_sub_def example_package_def)
  show ?thesis
    using package_find_target_relative [of example_root example_package "''foo''"]
      package_find_target_relative [of example_sub example_package "''foo''",
        THEN conjunct2, THEN conjunct2]
    by (simp add: a)
qed

text \<open>
  C9 as the code has it.  For a remainder without \<^verbatim>\<open>//\<close>: a package path that is not
  registered fails with the unknown-package error, which names the identifier this
  project was asked for; a registered package without the target fails with the
  target-not-found error, which names the target name and the package path qualified
  by the project's alias.  Through an alias, the error is the one of the project
  found, asked for the identifier without the alias.
\<close>

theorem find_target_not_found:
  "(\<not> py_contains ''//'' r \<and> CHR '':'' \<notin> set r \<and> map_of (packages self) r = None \<longrightarrow>
      find_target self (''//'' @ r) = Inl (Unknown_package (''//'' @ r))) \<and>
   (\<not> py_contains ''//'' r \<and> CHR '':'' \<notin> set r \<and> map_of (packages self) r = Some pkg \<and>
      map_of (targets pkg) (basename r) = None \<longrightarrow>
      find_target self (''//'' @ r) =
        Inl (Target_not_found (basename r) (project_alias self @ ''//'' @ r))) \<and>
   (\<not> py_contains ''//'' (p @ CHR '':'' # t) \<and> CHR '':'' \<notin> set p \<and> CHR '':'' \<notin> set t \<and>
      map_of (packages self) p = None \<longrightarrow>
      find_target self (''//'' @ p @ CHR '':'' # t) =
        Inl (Unknown_package (''//'' @ p @ CHR '':'' # t))) \<and>
   (\<not> py_contains ''//'' (p @ CHR '':'' # t) \<and> CHR '':'' \<notin> set p \<and> CHR '':'' \<notin> set t \<and>
      map_of (packages self) p = Some pkg \<and> map_of (targets pkg) t = None \<longrightarrow>
      find_target self (''//'' @ p @ CHR '':'' # t) =
        Inl (Target_not_found t (project_alias self @ ''//'' @ p))) \<and>
   (a \<noteq> [] \<and> CHR ''/'' \<notin> set a \<and> \<not> py_contains ''//'' m \<and> find_project self a = Some q \<longrightarrow>
      find_target self (a @ ''//'' @ m) = find_target q (''//'' @ m))"
proof (intro conjI impI)
  assume h: "\<not> py_contains ''//'' r \<and> CHR '':'' \<notin> set r \<and> map_of (packages self) r = None"
  then have a: "\<not> py_contains ''//'' r" and b: "CHR '':'' \<notin> set r" by simp_all
  show "find_target self (''//'' @ r) = Inl (Unknown_package (''//'' @ r))"
    unfolding find_target_local[OF a] resolve_remainder_plain[OF b]
    using h by (simp add: lookup_target_def)
next
  assume h: "\<not> py_contains ''//'' r \<and> CHR '':'' \<notin> set r \<and> map_of (packages self) r = Some pkg \<and>
      map_of (targets pkg) (basename r) = None"
  then have a: "\<not> py_contains ''//'' r" and b: "CHR '':'' \<notin> set r" by simp_all
  show "find_target self (''//'' @ r) =
        Inl (Target_not_found (basename r) (project_alias self @ ''//'' @ r))"
    unfolding find_target_local[OF a] resolve_remainder_plain[OF b]
    using h by (simp add: lookup_target_def)
next
  assume h: "\<not> py_contains ''//'' (p @ CHR '':'' # t) \<and> CHR '':'' \<notin> set p \<and> CHR '':'' \<notin> set t \<and>
      map_of (packages self) p = None"
  then have a: "\<not> py_contains ''//'' (p @ CHR '':'' # t)"
    and b: "CHR '':'' \<notin> set p" and c: "CHR '':'' \<notin> set t" by simp_all
  show "find_target self (''//'' @ p @ CHR '':'' # t) =
        Inl (Unknown_package (''//'' @ p @ CHR '':'' # t))"
    unfolding find_target_local[OF a] resolve_remainder_explicit[OF b c]
    using h by (simp add: lookup_target_def)
next
  assume h: "\<not> py_contains ''//'' (p @ CHR '':'' # t) \<and> CHR '':'' \<notin> set p \<and> CHR '':'' \<notin> set t \<and>
      map_of (packages self) p = Some pkg \<and> map_of (targets pkg) t = None"
  then have a: "\<not> py_contains ''//'' (p @ CHR '':'' # t)"
    and b: "CHR '':'' \<notin> set p" and c: "CHR '':'' \<notin> set t" by simp_all
  show "find_target self (''//'' @ p @ CHR '':'' # t) =
        Inl (Target_not_found t (project_alias self @ ''//'' @ p))"
    unfolding find_target_local[OF a] resolve_remainder_explicit[OF b c]
    using h by (simp add: lookup_target_def)
next
  assume h: "a \<noteq> [] \<and> CHR ''/'' \<notin> set a \<and> \<not> py_contains ''//'' m \<and> find_project self a = Some q"
  then have a1: "a \<noteq> []" and a2: "CHR ''/'' \<notin> set a" and a3: "\<not> py_contains ''//'' m"
    and a4: "find_project self a = Some q" by simp_all
  show "find_target self (a @ ''//'' @ m) = find_target q (''//'' @ m)"
    by (simp only: find_target_aliased[OF a2 a1] py_split_no_sep[OF a3] list.case a4 option.case)
qed

theorem find_target_not_found_witness:
  "find_target example_root ''//zz'' = Inl (Unknown_package ''//zz'') \<and>
   find_target example_root ''//a/b'' = Inl (Target_not_found ''b'' ''//a/b'') \<and>
   find_target example_root ''//zz:t'' = Inl (Unknown_package ''//zz:t'') \<and>
   find_target example_sub ''//x:t'' = Inl (Target_not_found ''t'' ''sub//x'') \<and>
   find_target example_root ''sub//x:t'' = find_target example_sub ''//x:t''"
proof -
  have p1: "\<not> py_contains ''//'' ''zz'' \<and> CHR '':'' \<notin> set ''zz'' \<and>
      map_of (packages example_root) ''zz'' = None"
    by (simp add: example_root_def)
  have p2: "\<not> py_contains ''//'' ''a/b'' \<and> CHR '':'' \<notin> set ''a/b'' \<and>
      map_of (packages example_root) ''a/b'' = Some example_package \<and>
      map_of (targets example_package) (basename ''a/b'') = None"
    by (simp add: example_root_def example_package_def basename_def)
  have p3: "\<not> py_contains ''//'' (''zz'' @ CHR '':'' # ''t'') \<and> CHR '':'' \<notin> set ''zz'' \<and>
      CHR '':'' \<notin> set ''t'' \<and> map_of (packages example_root) ''zz'' = None"
    by (simp add: example_root_def)
  have p4: "\<not> py_contains ''//'' (''x'' @ CHR '':'' # ''t'') \<and> CHR '':'' \<notin> set ''x'' \<and>
      CHR '':'' \<notin> set ''t'' \<and>
      map_of (packages example_sub) ''x'' =
        Some \<lparr>relpath = ''x'', targets = [(''y'', example_target ''y'' ''sub//x:y'')]\<rparr> \<and>
      map_of (targets \<lparr>relpath = ''x'', targets = [(''y'', example_target ''y'' ''sub//x:y'')]\<rparr>)
        ''t'' = None"
    by (simp add: example_sub_def)
  have p5: "''sub'' \<noteq> [] \<and> CHR ''/'' \<notin> set ''sub'' \<and> \<not> py_contains ''//'' ''x:t'' \<and>
      find_project example_root ''sub'' = Some example_sub"
    by (simp add: find_project_example_sub)
  have r1: "find_target example_root (''//'' @ ''zz'') = Inl (Unknown_package (''//'' @ ''zz''))"
    using find_target_not_found [of "''zz''" example_root, THEN conjunct1] p1 by (rule mp)
  have r2: "find_target example_root (''//'' @ ''a/b'') =
      Inl (Target_not_found (basename ''a/b'') (project_alias example_root @ ''//'' @ ''a/b''))"
    using find_target_not_found [of "''a/b''" example_root example_package,
        THEN conjunct2, THEN conjunct1] p2 by (rule mp)
  have r3: "find_target example_root (''//'' @ ''zz'' @ CHR '':'' # ''t'') =
      Inl (Unknown_package (''//'' @ ''zz'' @ CHR '':'' # ''t''))"
    using find_target_not_found [of _ example_root _ "''zz''" "''t''",
        THEN conjunct2, THEN conjunct2, THEN conjunct1] p3 by (rule mp)
  have r4: "find_target example_sub (''//'' @ ''x'' @ CHR '':'' # ''t'') =
      Inl (Target_not_found ''t'' (project_alias example_sub @ ''//'' @ ''x''))"
    using find_target_not_found [of _ example_sub
        "\<lparr>relpath = ''x'', targets = [(''y'', example_target ''y'' ''sub//x:y'')]\<rparr>" "''x''" "''t''",
        THEN conjunct2, THEN conjunct2, THEN conjunct2, THEN conjunct1] p4 by (rule mp)
  have r5: "find_target example_root (''sub'' @ ''//'' @ ''x:t'') =
      find_target example_sub (''//'' @ ''x:t'')"
    using find_target_not_found [of _ example_root _ _ _ "''sub''" "''x:t''" example_sub,
        THEN conjunct2, THEN conjunct2, THEN conjunct2, THEN conjunct2] p5 by (rule mp)
  have al: "project_alias example_root = []" "project_alias example_sub = ''sub''"
    by (simp_all add: example_root_def example_sub_def)
  from r1 r2 r3 r4 r5 show ?thesis by (simp add: al basename_def)
qed

text \<open>
  C9 as stated fails: for \<^verbatim>\<open>//a:t\<close>, where package \<^verbatim>\<open>a\<close> has no target \<^verbatim>\<open>t\<close>, the message
  of the error does not contain the identifier; and through the alias \<^verbatim>\<open>sub\<close> the
  unknown-package error names \<^verbatim>\<open>//q:z\<close>, not the identifier \<^verbatim>\<open>sub//q:z\<close> that was asked for.
\<close>

theorem not_found_names_identifier_counterexample:
  "find_target example_root ''//a:t'' = Inl (Target_not_found ''t'' ''//a'') \<and>
   \<not> py_contains ''//a:t'' (target_not_found_message ''t'' ''//a'') \<and>
   find_target example_root ''sub//q:z'' = Inl (Unknown_package ''//q:z'')"
proof -
  have c1: "find_target example_root ''//a:t'' = Inl (Target_not_found ''t'' ''//a'')"
    using find_target_local [of "''a:t''" example_root]
    by (simp add: resolve_remainder_def lookup_target_def example_root_def)
  have c2: "\<not> py_contains ''//a:t'' (target_not_found_message ''t'' ''//a'')"
    by (simp add: target_not_found_message_def)
  have "find_target example_root ''sub//q:z'' = find_target example_sub ''//q:z''"
    using find_target_aliased [of "''sub''" example_root "''q:z''"]
    by (simp add: find_project_example_sub)
  also have "\<dots> = Inl (Unknown_package ''//q:z'')"
    using find_target_local [of "''q:z''" example_sub]
    by (simp add: resolve_remainder_def lookup_target_def example_sub_def)
  finally show ?thesis using c1 c2 by simp
qed

section \<open>Registered rules\<close>

text \<open>
  C10.  A new project has the rule \<^verbatim>\<open>cobble_symlink_product\<close> with its fixed
  definition, and keeps it through every sequence of \<^verbatim>\<open>add_ninja_rules\<close> calls, whatever
  their outcome.  \<^verbatim>\<open>add_ninja_rules\<close> keeps every registered entry; adding a registered
  name with the same definition changes nothing, and with another definition it fails
  and changes nothing.
\<close>

lemma add_ninja_rules_loop_preserves:
  "map_of registered k = Some v \<Longrightarrow>
   map_of (snd (add_ninja_rules_loop rules registered)) k = Some v"
proof (induction rules registered rule: add_ninja_rules_loop.induct)
  case (1 registered)
  then show ?case by simp
next
  case (2 k' v' rules registered)
  then show ?case
    by (cases "map_of registered k'") (auto simp: map_add_Some_iff)
qed

lemma ninja_rules_add_ninja_rules:
  "ninja_rules (snd (add_ninja_rules self rules)) =
   snd (add_ninja_rules_loop rules (ninja_rules self))"
  by (simp add: add_ninja_rules_def split: prod.splits)

lemma add_ninja_rules_preserves:
  "map_of (ninja_rules self) k = Some v \<Longrightarrow>
   map_of (ninja_rules (snd (add_ninja_rules self rules))) k = Some v"
  by (simp add: ninja_rules_add_ninja_rules add_ninja_rules_loop_preserves)

lemma add_ninja_rules_fold_preserves:
  "map_of (ninja_rules self) k = Some v \<Longrightarrow>
   map_of (ninja_rules (fold (\<lambda>rules p. snd (add_ninja_rules p rules)) rss self)) k = Some v"
  by (induction rss arbitrary: self) (auto simp: add_ninja_rules_preserves)

theorem ninja_rules_never_replaced:
  "map_of (ninja_rules (Project_init r b a)) ''cobble_symlink_product'' =
     Some [''command'' \<mapsto> ''ln -sf $target $out'', ''description'' \<mapsto> ''SYMLINK $out''] \<and>
   map_of (ninja_rules (fold (\<lambda>rules p. snd (add_ninja_rules p rules)) rss (Project_init r b a)))
       ''cobble_symlink_product'' =
     Some [''command'' \<mapsto> ''ln -sf $target $out'', ''description'' \<mapsto> ''SYMLINK $out''] \<and>
   (\<forall>k v. map_of (ninja_rules self) k = Some v \<longrightarrow>
      map_of (ninja_rules (snd (add_ninja_rules self rules))) k = Some v) \<and>
   (\<forall>k v. map_of (ninja_rules self) k = Some v \<longrightarrow>
      add_ninja_rules self [(k, v)] = (None, self)) \<and>
   (\<forall>k v w. map_of (ninja_rules self) k = Some w \<and> v \<noteq> w \<longrightarrow>
      add_ninja_rules self [(k, v)] = (Some (Rule_defined_incompatibly k), self))"
proof -
  have init: "map_of (ninja_rules (Project_init r b a)) ''cobble_symlink_product'' =
     Some [''command'' \<mapsto> ''ln -sf $target $out'', ''description'' \<mapsto> ''SYMLINK $out'']"
    by (simp add: Project_init_def cobble_symlink_product_def)
  from init have inv: "map_of (ninja_rules (fold (\<lambda>rules p. snd (add_ninja_rules p rules)) rss (Project_init r b a)))
       ''cobble_symlink_product'' =
     Some [''command'' \<mapsto> ''ln -sf $target $out'', ''description'' \<mapsto> ''SYMLINK $out'']"
    by (rule add_ninja_rules_fold_preserves)
  have pres: "\<forall>k v. map_of (ninja_rules self) k = Some v \<longrightarrow>
      map_of (ninja_rules (snd (add_ninja_rules self rules))) k = Some v"
    by (simp add: add_ninja_rules_preserves)
  have noop: "\<forall>k v. map_of (ninja_rules self) k = Some v \<longrightarrow>
      add_ninja_rules self [(k, v)] = (None, self)"
    by (simp add: add_ninja_rules_def)
  have fails: "\<forall>k v w. map_of (ninja_rules self) k = Some w \<and> v \<noteq> w \<longrightarrow>
      add_ninja_rules self [(k, v)] = (Some (Rule_defined_incompatibly k), self)"
    by (simp add: add_ninja_rules_def)
  from init inv pres noop fails show ?thesis by blast
qed

theorem ninja_rules_never_replaced_witness:
  "add_ninja_rules (Project_init ''.'' ''out'' [])
      [(''cobble_symlink_product'', cobble_symlink_product)] =
     (None, Project_init ''.'' ''out'' []) \<and>
   add_ninja_rules (Project_init ''.'' ''out'' []) [(''cobble_symlink_product'', Map.empty)] =
     (Some (Rule_defined_incompatibly ''cobble_symlink_product''), Project_init ''.'' ''out'' []) \<and>
   map_of (ninja_rules (snd (add_ninja_rules (Project_init ''.'' ''out'' [])
      [(''cc'', Map.empty), (''cobble_symlink_product'', Map.empty)])))
      ''cobble_symlink_product'' = Some cobble_symlink_product"
proof -
  have reg: "map_of (ninja_rules (Project_init ''.'' ''out'' [])) ''cobble_symlink_product'' =
      Some cobble_symlink_product"
    by (simp add: Project_init_def)
  have neq: "Map.empty \<noteq> cobble_symlink_product"
  proof
    assume "Map.empty = cobble_symlink_product"
    from fun_cong[OF this, of "''command''"] show False
      by (simp add: cobble_symlink_product_def)
  qed
  note inst = ninja_rules_never_replaced [of "''.''" "''out''" "[]" "[]"
      "Project_init ''.'' ''out'' []"
      "[(''cc'', Map.empty), (''cobble_symlink_product'', Map.empty)]"]
  from inst have pres: "\<forall>k v. map_of (ninja_rules (Project_init ''.'' ''out'' [])) k = Some v \<longrightarrow>
      map_of (ninja_rules (snd (add_ninja_rules (Project_init ''.'' ''out'' [])
        [(''cc'', Map.empty), (''cobble_symlink_product'', Map.empty)]))) k = Some v"
    and noop: "\<forall>k v. map_of (ninja_rules (Project_init ''.'' ''out'' [])) k = Some v \<longrightarrow>
      add_ninja_rules (Project_init ''.'' ''out'' []) [(k, v)] = (None, Project_init ''.'' ''out'' [])"
    and fails: "\<forall>k v w. map_of (ninja_rules (Project_init ''.'' ''out'' [])) k = Some w \<and> v \<noteq> w \<longrightarrow>
      add_ninja_rules (Project_init ''.'' ''out'' []) [(k, v)] =
        (Some (Rule_defined_incompatibly k), Project_init ''.'' ''out'' [])"
    by simp_all
  from noop reg have r1: "add_ninja_rules (Project_init ''.'' ''out'' [])
      [(''cobble_symlink_product'', cobble_symlink_product)] =
     (None, Project_init ''.'' ''out'' [])" by simp
  from fails reg neq have r2: "add_ninja_rules (Project_init ''.'' ''out'' [])
      [(''cobble_symlink_product'', Map.empty)] =
     (Some (Rule_defined_incompatibly ''cobble_symlink_product''), Project_init ''.'' ''out'' [])"
    by simp
  from pres reg have r3: "map_of (ninja_rules (snd (add_ninja_rules (Project_init ''.'' ''out'' [])
      [(''cc'', Map.empty), (''cobble_symlink_product'', Map.empty)])))
      ''cobble_symlink_product'' = Some cobble_symlink_product" by simp
  from r1 r2 r3 show ?thesis by simp
qed

section \<open>Writing through a temporary file\<close>

definition example_dict :: "string \<Rightarrow> string \<Rightarrow> ninja_dict" where
  "example_dict out r =
     \<lparr>outputs = [out], rule = r, inputs = None, implicit = None, order_only = None,
      variables = None\<rparr>"

definition example_concrete :: "string \<Rightarrow> product_map \<Rightarrow> target" where
  "example_concrete n pm =
     \<lparr>name = n, ident = ''//app:'' @ n, concrete = True, evaluate = Inr pm\<rparr>"

definition example_env :: "string \<Rightarrow> environment" where
  "example_env d = \<lparr>digest = d, readout_all = []\<rparr>"

text \<open>
  A project whose two binaries reach the same library under two environments; the
  second finds one step of the library already registered and one new step.
\<close>

definition example_build :: project where
  "example_build = Project ''/r'' ''out'' [] [] []
     [(''app'', \<lparr>relpath = ''app'', targets =
        [(''B1'', example_concrete ''B1''
            [((''//lib:L'', Some (example_env ''e1'')),
                [\<lparr>ninja_dicts = [example_dict ''foo.o'' ''cc'']\<rparr>]),
             ((''//app:B1'', None), [\<lparr>ninja_dicts = [example_dict ''b1'' ''link'']\<rparr>])]),
         (''B2'', example_concrete ''B2''
            [((''//lib:L'', Some (example_env ''e2'')),
                [\<lparr>ninja_dicts = [example_dict ''foo.o'' ''cc'']\<rparr>,
                 \<lparr>ninja_dicts = [example_dict ''bar.o'' ''cc'']\<rparr>]),
             ((''//app:B2'', None), [\<lparr>ninja_dicts = [example_dict ''b2'' ''link'']\<rparr>])])]\<rparr>)]
     [(''cobble_symlink_product'', cobble_symlink_product)]"

text \<open>A project whose two binaries define the same output by different rules.\<close>

definition example_conflict :: project where
  "example_conflict = Project ''/r'' ''out'' [] [] []
     [(''app'', \<lparr>relpath = ''app'', targets =
        [(''B1'', example_concrete ''B1''
            [((''//lib:L'', Some (example_env ''e1'')),
                [\<lparr>ninja_dicts = [example_dict ''foo.o'' ''cc'']\<rparr>])]),
         (''B2'', example_concrete ''B2''
            [((''//lib:L'', Some (example_env ''e2'')),
                [\<lparr>ninja_dicts = [example_dict ''foo.o'' ''cxx'']\<rparr>])])]\<rparr>)]
     [(''cobble_symlink_product'', cobble_symlink_product)]"

lemma write_items_no_fault: "write_items None accepted items = (None, accepted @ items)"
  by (induction items arbitrary: accepted) (simp_all add: raised_def)

lemma write_items_returns:
  "write_items fault accepted items = (None, w) \<Longrightarrow> w = accepted @ items"
proof (induction items arbitrary: accepted)
  case Nil
  then show ?case by simp
next
  case (Cons x xs)
  from Cons.prems have "write_items fault (accepted @ [x]) xs = (None, w)"
    by (simp split: option.splits)
  from Cons.IH[OF this] show ?case by simp
qed

lemma rename_tmp_written:
  "rename_tmp (close_tmp a (open_tmp fs)) =
   (fs(''build.ninja'' \<mapsto> a))(''.build.ninja.tmp'' := None)"
  by (simp add: rename_tmp_def close_tmp_def open_tmp_def fun_eq_iff)

lemma left_behind_written:
  "left_behind flushed a (open_tmp fs) = fs(''.build.ninja.tmp'' \<mapsto> take flushed a)"
  by (simp add: left_behind_def open_tmp_def)

text \<open>A run that returns has collected the products and left the whole script.\<close>

lemma write_ninja_files_returns:
  assumes "fst (write_ninja_files fault flushed project dump fs) = None"
  shows "\<exists>c. collect_targets (concrete_targets project) empty_collector = Inr c \<and>
           write_ninja_files fault flushed project dump fs =
             (None, (fs(''build.ninja'' \<mapsto>
                header_items project @ rule_items project @
                (if dump then environment_listing (environments_by_digest c) else []) @
                product_items c))(''.build.ninja.tmp'' := None))"
proof -
  obtain r1 w1 where
    a1: "write_items fault [] (header_items project @ rule_items project) = (r1, w1)"
    by (cases "write_items fault [] (header_items project @ rule_items project)")
  from assms a1 have n1: "r1 = None"
    by (cases r1) (simp_all add: write_ninja_files_def)
  from a1 n1 have w1: "w1 = header_items project @ rule_items project"
    using write_items_returns[of fault "[]" "header_items project @ rule_items project" w1]
    by simp
  show ?thesis
  proof (cases "collect_targets (concrete_targets project) empty_collector")
    case (Inl e)
    with assms a1 n1 show ?thesis by (simp add: write_ninja_files_def)
  next
    case (Inr c)
    define rest where
      "rest = (if dump then environment_listing (environments_by_digest c) else []) @
              product_items c"
    obtain r2 w2 where a2: "write_items fault w1 rest = (r2, w2)"
      by (cases "write_items fault w1 rest")
    from assms a1 n1 Inr a2 have n2: "r2 = None"
      by (cases r2) (simp_all add: write_ninja_files_def rest_def)
    from a2 n2 have w2: "w2 = w1 @ rest"
      using write_items_returns[of fault w1 rest w2] by simp
    from assms a1 n1 Inr a2 n2 have n3: "raised fault (length w2) = None"
      by (cases "raised fault (length w2)") (simp_all add: write_ninja_files_def rest_def)
    from a1 n1 Inr a2 n2 n3
    have "write_ninja_files fault flushed project dump fs =
            (None, rename_tmp (close_tmp w2 (open_tmp fs)))"
      by (simp add: write_ninja_files_def rest_def)
    then have "write_ninja_files fault flushed project dump fs =
            (None, (fs(''build.ninja'' \<mapsto> w2))(''.build.ninja.tmp'' := None))"
      by (simp only: rename_tmp_written)
    with Inr show ?thesis by (simp add: w2 w1 rest_def)
  qed
qed

text \<open>A run that raises has left the temporary file, and changed nothing else.\<close>

lemma write_ninja_files_raises:
  assumes "fst (write_ninja_files fault flushed project dump fs) \<noteq> None"
  shows "\<exists>w. snd (write_ninja_files fault flushed project dump fs) =
           fs(''.build.ninja.tmp'' \<mapsto> w)"
proof -
  obtain r1 w1 where
    a1: "write_items fault [] (header_items project @ rule_items project) = (r1, w1)"
    by (cases "write_items fault [] (header_items project @ rule_items project)")
  show ?thesis
  proof (cases r1)
    case (Some e)
    with a1 have "snd (write_ninja_files fault flushed project dump fs) =
        fs(''.build.ninja.tmp'' \<mapsto> take flushed w1)"
      by (simp add: write_ninja_files_def left_behind_written)
    then show ?thesis ..
  next
    case n1: None
    show ?thesis
    proof (cases "collect_targets (concrete_targets project) empty_collector")
      case (Inl e)
      with a1 n1 have "snd (write_ninja_files fault flushed project dump fs) =
          fs(''.build.ninja.tmp'' \<mapsto> take flushed w1)"
        by (simp add: write_ninja_files_def left_behind_written)
      then show ?thesis ..
    next
      case (Inr c)
      define rest where
        "rest = (if dump then environment_listing (environments_by_digest c) else []) @
                product_items c"
      obtain r2 w2 where a2: "write_items fault w1 rest = (r2, w2)"
        by (cases "write_items fault w1 rest")
      show ?thesis
      proof (cases r2)
        case (Some e)
        with a1 n1 Inr a2 have "snd (write_ninja_files fault flushed project dump fs) =
            fs(''.build.ninja.tmp'' \<mapsto> take flushed w2)"
          by (simp add: write_ninja_files_def left_behind_written rest_def)
        then show ?thesis ..
      next
        case n2: None
        show ?thesis
        proof (cases "raised fault (length w2)")
          case (Some e)
          with a1 n1 Inr a2 n2
          have "snd (write_ninja_files fault flushed project dump fs) =
              fs(''.build.ninja.tmp'' \<mapsto> take flushed w2)"
            by (simp add: write_ninja_files_def left_behind_written rest_def)
          then show ?thesis ..
        next
          case None
          with a1 n1 Inr a2 n2 have "fst (write_ninja_files fault flushed project dump fs) = None"
            by (simp add: write_ninja_files_def rest_def)
          with assms show ?thesis by simp
        qed
      qed
    qed
  qed
qed

text \<open>The runs in which no call of the writer raises.\<close>

lemma write_ninja_files_failure:
  "collect_targets (concrete_targets project) empty_collector = Inl e \<Longrightarrow>
   write_ninja_files None flushed project dump fs =
     (Some e, fs(''.build.ninja.tmp'' \<mapsto>
        take flushed (header_items project @ rule_items project)))"
  by (simp add: write_ninja_files_def write_items_no_fault left_behind_written)

lemma write_ninja_files_success:
  "collect_targets (concrete_targets project) empty_collector = Inr c \<Longrightarrow>
   write_ninja_files None flushed project dump fs =
     (None, (fs(''build.ninja'' \<mapsto>
        header_items project @ rule_items project @
        (if dump then environment_listing (environments_by_digest c) else []) @
        product_items c))(''.build.ninja.tmp'' := None))"
  by (simp add: write_ninja_files_def write_items_no_fault raised_def rename_tmp_written)

lemma example_conflict_fails:
  "collect_targets (concrete_targets example_conflict) empty_collector =
     Inl (Conflicting_rules {''foo.o''})"
  by (simp add: example_conflict_def concrete_targets_def project_targets_def
      example_concrete_def empty_collector_def example_dict_def example_env_def
      set_target_env_def Let_def)

text \<open>
  C2 as the code has it.  The script is written to \<^verbatim>\<open>.build.ninja.tmp\<close> and renamed onto
  \<^verbatim>\<open>build.ninja\<close> only after everything has been written and the writer closed: a run that
  returns leaves the whole script at the final path and no temporary file.  A run that
  fails, in collecting the products or in any call of the writer, leaves the final path
  as it was, and leaves the temporary file behind.  No other path is touched.
\<close>

theorem write_ninja_files_atomic:
  "(fst (write_ninja_files fault flushed project dump fs) = None \<longrightarrow>
      snd (write_ninja_files fault flushed project dump fs) ''.build.ninja.tmp'' = None \<and>
      (\<exists>c. collect_targets (concrete_targets project) empty_collector = Inr c \<and>
         snd (write_ninja_files fault flushed project dump fs) ''build.ninja'' =
           Some (header_items project @ rule_items project @
             (if dump then environment_listing (environments_by_digest c) else []) @
             product_items c))) \<and>
   (fst (write_ninja_files fault flushed project dump fs) \<noteq> None \<longrightarrow>
      snd (write_ninja_files fault flushed project dump fs) ''build.ninja'' = fs ''build.ninja'' \<and>
      snd (write_ninja_files fault flushed project dump fs) ''.build.ninja.tmp'' \<noteq> None) \<and>
   (path \<noteq> ''build.ninja'' \<and> path \<noteq> ''.build.ninja.tmp'' \<longrightarrow>
      snd (write_ninja_files fault flushed project dump fs) path = fs path)"
proof (cases "fst (write_ninja_files fault flushed project dump fs)")
  case None
  from write_ninja_files_returns[OF None] obtain c where
    c: "collect_targets (concrete_targets project) empty_collector = Inr c" and
    w: "write_ninja_files fault flushed project dump fs =
          (None, (fs(''build.ninja'' \<mapsto>
             header_items project @ rule_items project @
             (if dump then environment_listing (environments_by_digest c) else []) @
             product_items c))(''.build.ninja.tmp'' := None))"
    by blast
  show ?thesis unfolding w using c by simp
next
  case (Some e)
  then have "fst (write_ninja_files fault flushed project dump fs) \<noteq> None" by simp
  from write_ninja_files_raises[OF this] obtain w where
    w: "snd (write_ninja_files fault flushed project dump fs) = fs(''.build.ninja.tmp'' \<mapsto> w)"
    by blast
  show ?thesis unfolding w using Some by simp
qed

text \<open>
  A run that fails on conflicting products and a run whose writer raises at its fourth
  call, both over an earlier script.
\<close>

theorem write_ninja_files_atomic_witness:
  "fst (write_ninja_files None 0 example_conflict False [''build.ninja'' \<mapsto> [Newline]]) =
     Some (Conflicting_rules {''foo.o''}) \<and>
   snd (write_ninja_files None 0 example_conflict False [''build.ninja'' \<mapsto> [Newline]])
     ''build.ninja'' = Some [Newline] \<and>
   snd (write_ninja_files None 0 example_conflict False [''build.ninja'' \<mapsto> [Newline]])
     ''.build.ninja.tmp'' \<noteq> None \<and>
   fst (write_ninja_files (Some (3, Writer_error ''disk'')) 2 example_build False
          [''build.ninja'' \<mapsto> [Newline]]) = Some (Writer_error ''disk'') \<and>
   snd (write_ninja_files (Some (3, Writer_error ''disk'')) 2 example_build False
          [''build.ninja'' \<mapsto> [Newline]]) ''build.ninja'' = Some [Newline] \<and>
   snd (write_ninja_files (Some (3, Writer_error ''disk'')) 2 example_build False
          [''build.ninja'' \<mapsto> [Newline]]) ''.build.ninja.tmp'' \<noteq> None"
proof -
  have f: "fst (write_ninja_files None 0 example_conflict False
                  [''build.ninja'' \<mapsto> [Newline]]) = Some (Conflicting_rules {''foo.o''})"
    by (simp add: write_ninja_files_failure[OF example_conflict_fails])
  then have f': "fst (write_ninja_files None 0 example_conflict False
                  [''build.ninja'' \<mapsto> [Newline]]) \<noteq> None"
    by simp
  have g: "fst (write_ninja_files (Some (3, Writer_error ''disk'')) 2 example_build False
                  [''build.ninja'' \<mapsto> [Newline]]) = Some (Writer_error ''disk'')"
    by (simp add: write_ninja_files_def header_items_def raised_def)
  then have g': "fst (write_ninja_files (Some (3, Writer_error ''disk'')) 2 example_build False
                  [''build.ninja'' \<mapsto> [Newline]]) \<noteq> None"
    by simp
  note r1 = write_ninja_files_atomic [of None 0 example_conflict False
      "[''build.ninja'' \<mapsto> [Newline]]", THEN conjunct2, THEN conjunct1, THEN mp, OF f']
  note r2 = write_ninja_files_atomic [of "Some (3, Writer_error ''disk'')" 2 example_build False
      "[''build.ninja'' \<mapsto> [Newline]]", THEN conjunct2, THEN conjunct1, THEN mp, OF g']
  from f g r1 r2 show ?thesis by simp
qed

text \<open>
  C2 as stated fails: after a run that fails on conflicting products, started with no
  temporary file, the temporary file exists.
\<close>

theorem temporary_file_discarded_counterexample:
  "fst (write_ninja_files None 0 example_conflict False Map.empty) =
     Some (Conflicting_rules {''foo.o''}) \<and>
   Map.empty ''.build.ninja.tmp'' = (None :: script option) \<and>
   snd (write_ninja_files None 0 example_conflict False Map.empty) ''.build.ninja.tmp'' \<noteq> None"
  by (simp add: write_ninja_files_failure[OF example_conflict_fails])

definition example_collected :: collector where
  "example_collected =
     \<lparr>unique_products_by_target =
        [(''//lib:L'', [(''e1'', [example_dict ''foo.o'' ''cc'']),
                        (''e2'', [example_dict ''bar.o'' ''cc''])]),
         (''//app:B1'', [(''top'', [example_dict ''b1'' ''link''])]),
         (''//app:B2'', [(''top'', [example_dict ''b2'' ''link''])])],
      unique_products_by_output =
        [{''foo.o''} \<mapsto> example_dict ''foo.o'' ''cc'',
         {''b1''} \<mapsto> example_dict ''b1'' ''link'',
         {''bar.o''} \<mapsto> example_dict ''bar.o'' ''cc'',
         {''b2''} \<mapsto> example_dict ''b2'' ''link''],
      environments_by_digest =
        [(''e1'', Some (example_env ''e1'')), (''top'', None),
         (''e2'', Some (example_env ''e2''))]\<rparr>"

lemma example_build_collects:
  "collect_targets (concrete_targets example_build) empty_collector = Inr example_collected"
  by (simp add: example_build_def concrete_targets_def project_targets_def
      example_concrete_def empty_collector_def example_dict_def example_env_def
      set_target_env_def Let_def example_collected_def)

section \<open>The regeneration step\<close>

declare get_subproject_files.simps [simp del]
declare all_projects.simps [simp del]

text \<open>The build-configuration files of all projects of the tree.\<close>

definition tree_files :: "project \<Rightarrow> string list" where
  "tree_files project = concat (map files (all_projects project))"

text \<open>The build steps of a script, in order.\<close>

fun builds_of :: "script \<Rightarrow> ninja_dict list" where
  "builds_of [] = []"
| "builds_of (Build d # xs) = d # builds_of xs"
| "builds_of (x # xs) = builds_of xs"

lemma builds_of_append: "builds_of (xs @ ys) = builds_of xs @ builds_of ys"
  by (induction xs rule: builds_of.induct) auto

text \<open>
  What one call of the inner function of \<^verbatim>\<open>_get_project_files\<close> does to the dict: it
  appends entries of projects of the tree, leaves a key for each of them, and keeps
  the keys distinct.
\<close>

definition files_step ::
  "project list \<Rightarrow> (string \<times> string list) list \<Rightarrow> (string \<times> string list) list \<Rightarrow> bool" where
  "files_step qs before after \<longleftrightarrow>
     (\<exists>ys. after = before @ ys \<and> set ys \<subseteq> (\<lambda>q. (project_alias q, files q)) ` set qs) \<and>
     (\<forall>q\<in>set qs. project_alias q \<in> fst ` set after) \<and>
     (distinct (map fst before) \<longrightarrow> distinct (map fst after))"

lemma files_step_refl: "files_step [] sf sf"
  by (simp add: files_step_def)

lemma files_step_trans:
  assumes "files_step qs a b" and "files_step qs' b c"
  shows "files_step (qs @ qs') a c"
proof -
  from assms(1) obtain ys where ys: "b = a @ ys"
    "set ys \<subseteq> (\<lambda>q. (project_alias q, files q)) ` set qs" by (auto simp: files_step_def)
  from assms(2) obtain zs where zs: "c = b @ zs"
    "set zs \<subseteq> (\<lambda>q. (project_alias q, files q)) ` set qs'" by (auto simp: files_step_def)
  have 1: "\<exists>ws. c = a @ ws \<and> set ws \<subseteq> (\<lambda>q. (project_alias q, files q)) ` set (qs @ qs')"
    using ys zs by (intro exI[of _ "ys @ zs"]) auto
  have 2: "\<forall>q\<in>set (qs @ qs'). project_alias q \<in> fst ` set c"
    using assms zs(1) by (auto simp: files_step_def)
  have 3: "distinct (map fst a) \<longrightarrow> distinct (map fst c)"
    using assms by (simp add: files_step_def)
  from 1 2 3 show ?thesis unfolding files_step_def by blast
qed

lemma files_step_fold:
  "(\<And>x acc. x \<in> set xs \<Longrightarrow> files_step (all_projects x) acc (get_subproject_files x acc)) \<Longrightarrow>
   files_step (concat (map all_projects xs)) acc (fold get_subproject_files xs acc)"
proof (induction xs arbitrary: acc)
  case Nil
  then show ?case by (simp add: files_step_refl)
next
  case (Cons x xs)
  have a: "files_step (all_projects x) acc (get_subproject_files x acc)"
    using Cons.prems by simp
  have b: "files_step (concat (map all_projects xs)) (get_subproject_files x acc)
      (fold get_subproject_files xs (get_subproject_files x acc))"
    using Cons.IH Cons.prems by simp
  from files_step_trans[OF a b] show ?case by simp
qed

lemma files_step_get_subproject_files:
  "files_step (all_projects p) sf (get_subproject_files p sf)"
proof (induction p sf rule: get_subproject_files.induct)
  case (1 p sf)
  define visited where "visited = fold get_subproject_files (map snd (subprojects p)) sf"
  have v: "files_step (concat (map all_projects (map snd (subprojects p)))) sf visited"
    unfolding visited_def by (rule files_step_fold) (use "1.IH" in auto)
  have last: "files_step [p] visited
     (if map_of visited (project_alias p) = None then visited @ [(project_alias p, files p)]
      else visited)"
    by (auto simp: files_step_def map_of_eq_None_iff)
  have eq: "get_subproject_files p sf =
     (if map_of visited (project_alias p) = None then visited @ [(project_alias p, files p)]
      else visited)"
    by (subst get_subproject_files.simps) (simp add: visited_def Let_def)
  have "files_step (concat (map all_projects (map snd (subprojects p))) @ [p]) sf
     (get_subproject_files p sf)"
    unfolding eq by (rule files_step_trans[OF v last])
  then show ?case by (subst all_projects.simps) (simp add: files_step_def)
qed


lemma mset_concat_map_sum: "mset (concat (map f xs)) = (\<Sum>x\<in>#mset xs. mset (f x))"
  by (induction xs) auto

lemma mset_concat_map_cong:
  "mset xs = mset ys \<Longrightarrow> mset (concat (map f xs)) = mset (concat (map f ys))"
  by (simp add: mset_concat_map_sum)

lemma get_subproject_files_entries:
  "set (get_subproject_files p []) \<subseteq> (\<lambda>q. (project_alias q, files q)) ` set (all_projects p)"
  and get_subproject_files_keys:
  "\<forall>q\<in>set (all_projects p). project_alias q \<in> fst ` set (get_subproject_files p [])"
  and get_subproject_files_distinct:
  "distinct (map fst (get_subproject_files p []))"
  using files_step_get_subproject_files[of p "[]"] by (auto simp: files_step_def)

lemma get_project_files_subset: "set (get_project_files p) \<subseteq> set (tree_files p)"
  using get_subproject_files_entries[of p]
  by (fastforce simp: get_project_files_def tree_files_def)

lemma get_project_files_consistent:
  assumes "\<forall>q\<in>set (all_projects p). \<forall>q'\<in>set (all_projects p).
     project_alias q = project_alias q' \<longrightarrow> files q = files q'"
  shows "set (get_project_files p) = set (tree_files p)"
proof
  show "set (get_project_files p) \<subseteq> set (tree_files p)" by (rule get_project_files_subset)
  show "set (tree_files p) \<subseteq> set (get_project_files p)"
  proof
    fix f assume "f \<in> set (tree_files p)"
    then obtain q where q: "q \<in> set (all_projects p)" "f \<in> set (files q)"
      by (auto simp: tree_files_def)
    with get_subproject_files_keys[of p] obtain v
      where v: "(project_alias q, v) \<in> set (get_subproject_files p [])" by force
    with get_subproject_files_entries[of p] obtain q'
      where q': "q' \<in> set (all_projects p)" "project_alias q' = project_alias q" "v = files q'"
      by auto
    from assms q(1) q'(1) q'(2) have "files q' = files q" by blast
    with q'(3) have "v = files q" by simp
    with v q(2) show "f \<in> set (get_project_files p)"
      by (force simp: get_project_files_def)
  qed
qed

lemma get_project_files_distinct_aliases:
  assumes "distinct (map project_alias (all_projects p))"
  shows "get_project_files p = sort (tree_files p)"
proof -
  let ?E = "\<lambda>q. (project_alias q, files q)"
  let ?res = "get_subproject_files p []"
  have inj: "inj_on project_alias (set (all_projects p))"
    using assms by (simp add: distinct_map)
  have "set ?res = ?E ` set (all_projects p)"
  proof
    show "set ?res \<subseteq> ?E ` set (all_projects p)" by (rule get_subproject_files_entries)
    show "?E ` set (all_projects p) \<subseteq> set ?res"
    proof
      fix e assume "e \<in> ?E ` set (all_projects p)"
      then obtain q where q: "q \<in> set (all_projects p)" "e = ?E q" by auto
      with get_subproject_files_keys[of p] obtain v
        where v: "(project_alias q, v) \<in> set ?res" by force
      with get_subproject_files_entries[of p] obtain q'
        where q': "q' \<in> set (all_projects p)" "project_alias q' = project_alias q" "v = files q'"
        by auto
      with inj q(1) have "q' = q" by (auto dest: inj_onD)
      with v q' q(2) show "e \<in> set ?res" by simp
    qed
  qed
  then have s: "set ?res = set (map ?E (all_projects p))" by simp
  have d1: "distinct ?res"
    using get_subproject_files_distinct[of p] by (rule distinct_map[THEN iffD1, THEN conjunct1])
  have "distinct (map fst (map ?E (all_projects p)))" using assms by (simp add: comp_def)
  then have d2: "distinct (map ?E (all_projects p))"
    by (rule distinct_map[THEN iffD1, THEN conjunct1])
  from s set_eq_iff_mset_eq_distinct[OF d1 d2]
  have "mset ?res = mset (map ?E (all_projects p))" by (rule iffD1[rotated])
  then have "mset (concat (map snd ?res)) = mset (concat (map snd (map ?E (all_projects p))))"
    by (rule mset_concat_map_cong)
  then have m: "mset (get_project_files p) = mset (tree_files p)"
    by (simp add: get_project_files_def tree_files_def comp_def)
  have "sorted (get_project_files p)" by (simp add: get_project_files_def)
  with m show ?thesis by (simp add: properties_for_sort)
qed

lemma builds_of_header: "builds_of (header_items project) = [regeneration_build project]"
  by (simp add: header_items_def)

text \<open>
  C7.  The first build step of the script is the regeneration step: it builds
  \<^verbatim>\<open>build.ninja\<close> by the rule \<^verbatim>\<open>cobble_generate_ninja\<close>, and its implicit inputs are a sorted
  list of build-configuration files of the tree (for each project its \<^verbatim>\<open>BUILD.conf\<close> and
  the \<^verbatim>\<open>BUILD\<close> file of each package).  The list holds every such file when projects with
  the same alias have the same files, and is exactly the sorted list of all of them
  when no two projects of the tree share an alias.
\<close>

theorem regeneration_step_inputs:
  "(fst (write_ninja_files fault flushed project dump fs) = None \<longrightarrow>
      (\<exists>script rest. snd (write_ninja_files fault flushed project dump fs) ''build.ninja'' = Some script \<and>
         builds_of script = regeneration_build project # rest \<and>
         Rule ''cobble_generate_ninja''
           [''command'' \<mapsto> ''./cobble init --reinit '' @ root project,
            ''description'' \<mapsto> ''(cobbling something together)''] \<in> set script)) \<and>
   outputs (regeneration_build project) = [''build.ninja''] \<and>
   rule (regeneration_build project) = ''cobble_generate_ninja'' \<and>
   implicit (regeneration_build project) = Some (get_project_files project) \<and>
   sorted (get_project_files project) \<and>
   set (get_project_files project) \<subseteq> set (tree_files project) \<and>
   ((\<forall>q\<in>set (all_projects project). \<forall>q'\<in>set (all_projects project).
        project_alias q = project_alias q' \<longrightarrow> files q = files q') \<longrightarrow>
      set (get_project_files project) = set (tree_files project)) \<and>
   (distinct (map project_alias (all_projects project)) \<longrightarrow>
      get_project_files project = sort (tree_files project)) \<and>
   files q =
     path_join (root q) [''BUILD.conf''] #
     map (\<lambda>pkg. path_join (root q) [relpath pkg, ''BUILD'']) (map snd (packages q))"
proof -
  have first: "fst (write_ninja_files fault flushed project dump fs) = None \<longrightarrow>
      (\<exists>script rest. snd (write_ninja_files fault flushed project dump fs) ''build.ninja'' = Some script \<and>
         builds_of script = regeneration_build project # rest \<and>
         Rule ''cobble_generate_ninja''
           [''command'' \<mapsto> ''./cobble init --reinit '' @ root project,
            ''description'' \<mapsto> ''(cobbling something together)''] \<in> set script)"
  proof (cases "fst (write_ninja_files fault flushed project dump fs)")
    case (Some e)
    then show ?thesis by simp
  next
    case None
    from write_ninja_files_returns[OF None] obtain c where
      w: "write_ninja_files fault flushed project dump fs =
            (None, (fs(''build.ninja'' \<mapsto>
               header_items project @ rule_items project @
               (if dump then environment_listing (environments_by_digest c) else []) @
               product_items c))(''.build.ninja.tmp'' := None))"
      by blast
    have r: "Rule ''cobble_generate_ninja''
           [''command'' \<mapsto> ''./cobble init --reinit '' @ root project,
            ''description'' \<mapsto> ''(cobbling something together)''] \<in> set (header_items project)"
      by (simp add: header_items_def)
    show ?thesis unfolding w
      using r by (simp add: builds_of_append builds_of_header)
  qed
  have fields: "outputs (regeneration_build project) = [''build.ninja'']"
    "rule (regeneration_build project) = ''cobble_generate_ninja''"
    "implicit (regeneration_build project) = Some (get_project_files project)"
    by (simp_all add: regeneration_build_def)
  have srt: "sorted (get_project_files project)" by (simp add: get_project_files_def)
  have fl: "files q =
     path_join (root q) [''BUILD.conf''] #
     map (\<lambda>pkg. path_join (root q) [relpath pkg, ''BUILD'']) (map snd (packages q))"
    by (simp add: files_def inpath_def package_inpath_def)
  show ?thesis
    by (intro conjI first fields srt get_project_files_subset impI
        get_project_files_consistent get_project_files_distinct_aliases fl; assumption)
qed


lemma all_projects_example_root: "all_projects example_root = [example_root, example_sub]"
  by (simp add: all_projects.simps example_root_def example_sub_def)

lemma tree_files_example_root:
  "tree_files example_root =
     [''./BUILD.conf'', ''./a/BUILD'', ''./a/b/BUILD'', ''sub/BUILD.conf'', ''sub/x/BUILD'']"
  unfolding tree_files_def all_projects_example_root
  by (simp add: files_def inpath_def package_inpath_def path_join_def join_step_def
      py_startswith_def py_endswith_def example_root_def example_sub_def)

lemma example_root_collects:
  "collect_targets (concrete_targets example_root) empty_collector = Inr empty_collector"
  by (simp add: concrete_targets_def project_targets_def example_root_def example_target_def)

theorem regeneration_step_inputs_witness:
  "fst (write_ninja_files None 0 example_root False Map.empty) = None \<and>
   (\<exists>script rest. snd (write_ninja_files None 0 example_root False Map.empty) ''build.ninja'' =
        Some script \<and>
      builds_of script = regeneration_build example_root # rest) \<and>
   set (get_project_files example_root) = set (tree_files example_root) \<and>
   get_project_files example_root =
     [''./BUILD.conf'', ''./a/BUILD'', ''./a/b/BUILD'', ''sub/BUILD.conf'', ''sub/x/BUILD'']"
proof -
  note inst = regeneration_step_inputs [of None 0 example_root False Map.empty]
  have f: "fst (write_ninja_files None 0 example_root False Map.empty) = None"
    by (simp add: write_ninja_files_success[OF example_root_collects])
  have al: "project_alias example_root = []" "project_alias example_sub = ''sub''"
    by (simp_all add: example_root_def example_sub_def)
  have d: "distinct (map project_alias (all_projects example_root))"
    by (simp add: all_projects_example_root al)
  have c: "\<forall>q\<in>set (all_projects example_root). \<forall>q'\<in>set (all_projects example_root).
        project_alias q = project_alias q' \<longrightarrow> files q = files q'"
    by (simp add: all_projects_example_root al)
  from inst[THEN conjunct1, THEN mp, OF f]
  have r1: "\<exists>script rest. snd (write_ninja_files None 0 example_root False Map.empty) ''build.ninja'' =
        Some script \<and> builds_of script = regeneration_build example_root # rest"
    by blast
  from inst c have r2: "set (get_project_files example_root) = set (tree_files example_root)"
    by blast
  from inst d have "get_project_files example_root = sort (tree_files example_root)"
    by blast
  then have r3: "get_project_files example_root =
     [''./BUILD.conf'', ''./a/BUILD'', ''./a/b/BUILD'', ''sub/BUILD.conf'', ''sub/x/BUILD'']"
    by (simp add: tree_files_example_root)
  from f r1 r2 r3 show ?thesis by (intro conjI)
qed

section \<open>The order of the script\<close>

text \<open>The rules of a script, in order.\<close>

fun rules_of :: "script \<Rightarrow> (string \<times> rule_dict) list" where
  "rules_of [] = []"
| "rules_of (Rule n r # xs) = (n, r) # rules_of xs"
| "rules_of (x # xs) = rules_of xs"

text \<open>
  The product groups a collector holds, keyed by target identifier and environment
  digest: as stored, and in the order of the second product pass.
\<close>

definition groups_of :: "collector \<Rightarrow> ((string \<times> string) \<times> ninja_dict list) list" where
  "groups_of c =
     concat (map (\<lambda>(ti, emap). map (\<lambda>(ed, products). ((ti, ed), products)) emap)
       (unique_products_by_target c))"

definition emitted_groups :: "collector \<Rightarrow> ((string \<times> string) \<times> ninja_dict list) list" where
  "emitted_groups c =
     concat (map (\<lambda>(ti, emap). map (\<lambda>(ed, products). ((ti, ed), products)) (sort_key fst emap))
       (sort_key fst (unique_products_by_target c)))"

text \<open>The order of the groups: first by target identifier, then by environment digest.\<close>

definition group_key_less :: "string \<times> string \<Rightarrow> string \<times> string \<Rightarrow> bool" where
  "group_key_less = (\<lambda>(ti, ed) (ti', ed'). ti < ti' \<or> (ti = ti' \<and> ed < ed'))"

text \<open>
  One group as the specification words it: annotated with the identifier alone when
  the target has one group, with identifier and digest otherwise; then its build steps.
\<close>

definition group_items ::
  "((string \<times> string) \<times> ninja_dict list) list \<Rightarrow> (string \<times> string) \<times> ninja_dict list \<Rightarrow> script" where
  "group_items groups = (\<lambda>((ti, ed), products).
     Comment (if length (filter (\<lambda>g. fst (fst g) = ti) groups) = 1
              then ''---- target '' @ ti
              else ''---- target '' @ ti @ '' @ '' @ ed) #
     map Build products @ [Newline])"

text \<open>The keys of the two levels of \<^verbatim>\<open>unique_products_by_target\<close> are those of dicts.\<close>

definition wf_by_target :: "(string \<times> (string \<times> ninja_dict list) list) list \<Rightarrow> bool" where
  "wf_by_target by_target \<longleftrightarrow>
     distinct (map fst by_target) \<and> (\<forall>(ti, emap)\<in>set by_target. distinct (map fst emap))"

lemma builds_of_rule_items: "builds_of (rule_items project) = []"
proof -
  have "builds_of (concat (map (\<lambda>(name', rule'). [Rule name' rule', Newline]) xs)) = []" for xs
    by (induction xs) (auto simp: builds_of_append)
  then show ?thesis by (simp add: rule_items_def)
qed

lemma rules_of_append: "rules_of (xs @ ys) = rules_of xs @ rules_of ys"
  by (induction xs rule: rules_of.induct) auto

lemma rules_of_rule_items: "rules_of (rule_items project) = sort_key fst (ninja_rules project)"
proof -
  have "rules_of (concat (map (\<lambda>(name', rule'). [Rule name' rule', Newline]) xs)) = xs" for xs
    by (induction xs) (auto simp: rules_of_append)
  then show ?thesis by (simp add: rule_items_def)
qed

lemma builds_of_concat_empty:
  "(\<And>x. x \<in> set xs \<Longrightarrow> builds_of (f x) = []) \<Longrightarrow> builds_of (concat (map f xs)) = []"
  by (induction xs) (auto simp: builds_of_append)

lemma rules_of_concat_empty:
  "(\<And>x. x \<in> set xs \<Longrightarrow> rules_of (f x) = []) \<Longrightarrow> rules_of (concat (map f xs)) = []"
  by (induction xs) (auto simp: rules_of_append)

lemma builds_of_unwrapped: "builds_of (map (\<lambda>(k, v). Comment_unwrapped (f k v)) xs) = []"
  by (induction xs) auto

lemma rules_of_unwrapped: "rules_of (map (\<lambda>(k, v). Comment_unwrapped (f k v)) xs) = []"
  by (induction xs) auto

lemma builds_of_environment_listing: "builds_of (environment_listing by_digest) = []"
proof -
  have "builds_of (concat (map (\<lambda>(digest', env).
        case env of
          None \<Rightarrow> []
        | Some e \<Rightarrow>
            Comment (''Environment '' @ digest') #
            map (\<lambda>(k, v). Comment_unwrapped (''env['' @ digest' @ '']['' @ k @ ''] = '' @ v))
              (readout_all e) @
            [Newline]) by_digest)) = []"
    by (rule builds_of_concat_empty)
       (auto simp: builds_of_append builds_of_unwrapped split: option.splits)
  then show ?thesis unfolding environment_listing_def by (simp only: builds_of.simps)
qed

lemma rules_of_environment_listing: "rules_of (environment_listing by_digest) = []"
proof -
  have "rules_of (concat (map (\<lambda>(digest', env).
        case env of
          None \<Rightarrow> []
        | Some e \<Rightarrow>
            Comment (''Environment '' @ digest') #
            map (\<lambda>(k, v). Comment_unwrapped (''env['' @ digest' @ '']['' @ k @ ''] = '' @ v))
              (readout_all e) @
            [Newline]) by_digest)) = []"
    by (rule rules_of_concat_empty)
       (auto simp: rules_of_append rules_of_unwrapped split: option.splits)
  then show ?thesis unfolding environment_listing_def by (simp only: rules_of.simps)
qed

lemma sorted_wrt_concat:
  "(\<And>xs. xs \<in> set xss \<Longrightarrow> sorted_wrt R xs) \<Longrightarrow>
   sorted_wrt (\<lambda>xs ys. \<forall>x\<in>set xs. \<forall>y\<in>set ys. R x y) xss \<Longrightarrow>
   sorted_wrt R (concat xss)"
  by (induction xss) (auto simp: sorted_wrt_append)

lemma strict_sorted_sort_key:
  "distinct (map fst xs) \<Longrightarrow> sorted_wrt (\<lambda>a b. fst a < fst b) (sort_key fst xs)"
proof -
  assume d: "distinct (map fst xs)"
  have "sorted (map fst (sort_key fst xs))" by simp
  moreover have "distinct (map fst (sort_key fst xs))"
    using d by (metis distinct_sort sort_key_def[symmetric] mset_map mset_sort mset_eq_imp_distinct_iff)
  ultimately have "sorted_wrt (<) (map fst (sort_key fst xs))"
    by (simp add: strict_sorted_iff)
  then show ?thesis by (simp add: sorted_wrt_map)
qed


lemma set_update_subset: "set (AList.update k v al) \<subseteq> insert (k, v) (set al)"
  by (induction al) auto

lemma wf_set_target_env:
  assumes "wf_by_target by_target"
  shows "wf_by_target (set_target_env ti ed flat by_target)"
proof -
  define old where "old = (case map_of by_target ti of None \<Rightarrow> [] | Some emap \<Rightarrow> emap)"
  have "distinct (map fst old)"
  proof (cases "map_of by_target ti")
    case None
    then show ?thesis by (simp add: old_def)
  next
    case (Some emap)
    then have "(ti, emap) \<in> set by_target" by (rule map_of_SomeD)
    with assms Some show ?thesis by (auto simp: wf_by_target_def old_def)
  qed
  then have new: "distinct (map fst (AList.update ed flat old))" by (rule distinct_update)
  have d: "distinct (map fst (AList.update ti (AList.update ed flat old) by_target))"
    using assms by (simp add: wf_by_target_def distinct_update)
  have "\<forall>(ti', emap)\<in>set (AList.update ti (AList.update ed flat old) by_target).
      distinct (map fst emap)"
    using set_update_subset[of ti "AList.update ed flat old" by_target] new assms
    by (auto simp: wf_by_target_def)
  with d show ?thesis by (simp add: wf_by_target_def set_target_env_def old_def)
qed

lemma wf_collect_product_map:
  "wf_by_target (unique_products_by_target c) \<Longrightarrow> collect_product_map pm c = Inr c' \<Longrightarrow>
   wf_by_target (unique_products_by_target c')"
proof (induction pm c rule: collect_product_map.induct)
  case (1 c)
  then show ?case by simp
next
  case (2 ti env products rest c)
  from "2.prems"(2) obtain by_output flat where
    r: "collect_ninja_dicts (concat (map ninja_dicts products)) (unique_products_by_output c) [] =
        Inr (by_output, flat)"
    by (auto simp: Let_def split: sum.splits)
  show ?case
  proof (rule "2.IH"[OF refl refl r refl])
    show "wf_by_target (unique_products_by_target
      \<lparr>unique_products_by_target =
         if flat \<noteq> []
         then set_target_env ti (case env of None \<Rightarrow> ''top'' | Some e \<Rightarrow> digest e) flat
           (unique_products_by_target c)
         else unique_products_by_target c,
       unique_products_by_output = by_output,
       environments_by_digest =
         AList.update (case env of None \<Rightarrow> ''top'' | Some e \<Rightarrow> digest e) env
           (environments_by_digest c)\<rparr>)"
      using "2.prems"(1) by (simp add: wf_set_target_env)
    show "collect_product_map rest
      \<lparr>unique_products_by_target =
         if flat \<noteq> []
         then set_target_env ti (case env of None \<Rightarrow> ''top'' | Some e \<Rightarrow> digest e) flat
           (unique_products_by_target c)
         else unique_products_by_target c,
       unique_products_by_output = by_output,
       environments_by_digest =
         AList.update (case env of None \<Rightarrow> ''top'' | Some e \<Rightarrow> digest e) env
           (environments_by_digest c)\<rparr> = Inr c'"
      using "2.prems"(2) r by (simp add: Let_def)
  qed
qed

lemma wf_collect_targets:
  "wf_by_target (unique_products_by_target c) \<Longrightarrow> collect_targets ts c = Inr c' \<Longrightarrow>
   wf_by_target (unique_products_by_target c')"
proof (induction ts arbitrary: c)
  case Nil
  then show ?case by simp
next
  case (Cons t ts)
  from Cons.prems(2) obtain pm c1 where e: "evaluate t = Inr pm"
    and c1: "collect_product_map pm c = Inr c1" and rest: "collect_targets ts c1 = Inr c'"
    by (auto split: sum.splits)
  from wf_collect_product_map[OF Cons.prems(1) c1] rest show ?case by (rule Cons.IH)
qed

lemma wf_collected:
  "collect_targets ts empty_collector = Inr c \<Longrightarrow> wf_by_target (unique_products_by_target c)"
  by (rule wf_collect_targets[of empty_collector]) (simp_all add: wf_by_target_def empty_collector_def)


lemma concat_map_concat:
  "concat (map f (concat xss)) = concat (map (\<lambda>xs. concat (map f xs)) xss)"
  by (induction xss) auto

lemma filter_groups_other:
  "ti \<notin> fst ` set xs \<Longrightarrow>
   filter (\<lambda>g. fst (fst g) = ti)
     (concat (map (\<lambda>(t, emap). map (\<lambda>(ed, products). ((t, ed), products)) (h emap)) xs)) = []"
  by (induction xs) (auto simp: filter_empty_conv)

lemma count_groups_of_target:
  assumes "distinct (map fst xs)" and "(ti, emap) \<in> set xs"
  shows "length (filter (\<lambda>g. fst (fst g) = ti)
     (concat (map (\<lambda>(t, emap). map (\<lambda>(ed, products). ((t, ed), products)) (h emap)) xs))) =
     length (h emap)"
  using assms
proof (induction xs)
  case Nil
  then show ?case by simp
next
  case (Cons x xs)
  obtain t e where x: "x = (t, e)" by (cases x)
  show ?case
  proof (cases "t = ti")
    case True
    with Cons.prems x have e: "e = emap" and notin: "ti \<notin> fst ` set xs"
      by (auto simp: rev_image_eqI)
    have all: "filter (\<lambda>g. fst (fst g) = ti) (map (\<lambda>(ed, products). ((ti, ed), products)) (h emap)) =
        map (\<lambda>(ed, products). ((ti, ed), products)) (h emap)"
      by (auto simp: filter_id_conv)
    show ?thesis using x True e all filter_groups_other[OF notin, of h] by simp
  next
    case False
    then have none: "filter (\<lambda>g. fst (fst g) = ti) (map (\<lambda>(ed, products). ((t, ed), products)) (h e)) = []"
      by (auto simp: filter_empty_conv)
    from False Cons.prems x have "(ti, emap) \<in> set xs" "distinct (map fst xs)" by auto
    with Cons.IH have "length (filter (\<lambda>g. fst (fst g) = ti)
     (concat (map (\<lambda>(t, emap). map (\<lambda>(ed, products). ((t, ed), products)) (h emap)) xs))) =
     length (h emap)" by simp
    with none x show ?thesis by simp
  qed
qed

lemma target_items_groups:
  assumes "length (filter (\<lambda>g. fst (fst g) = ti) groups) = length emap"
  shows "target_items (ti, emap) =
     concat (map (group_items groups)
       (map (\<lambda>(ed, products). ((ti, ed), products)) (sort_key fst emap)))"
proof (cases "length emap = 1")
  case True
  then have "length (sort_key fst emap) = 1" by simp
  then obtain ed products where s: "sort_key fst emap = [(ed, products)]"
    by (cases "sort_key fst emap") auto
  show ?thesis using True assms s
    by (simp add: target_items_def group_items_def Let_def del: length_sort)
next
  case False
  have "concat (map (\<lambda>(ed, products).
          (if length emap > 1 then [Comment (''---- target '' @ ti @ '' @ '' @ ed)] else []) @
          map Build products @ [Newline]) xs) =
        concat (map (group_items groups) (map (\<lambda>(ed, products). ((ti, ed), products)) xs))"
    if "xs \<noteq> [] \<longrightarrow> length emap > 1" for xs
    using that False assms by (induction xs) (auto simp: group_items_def)
  moreover have "sort_key fst emap \<noteq> [] \<longrightarrow> length emap > 1"
    using False by (cases emap) auto
  ultimately show ?thesis using False by (simp add: target_items_def Let_def)
qed

lemma distinct_sort_key_fst:
  "distinct (map fst xs) \<Longrightarrow> distinct (map fst (sort_key fst xs))"
proof -
  assume "distinct (map fst xs)"
  moreover have "mset (map fst (sort_key fst xs)) = mset (map fst xs)" by simp
  ultimately show ?thesis by (metis mset_eq_imp_distinct_iff)
qed

lemma product_items_groups:
  assumes "wf_by_target (unique_products_by_target c)"
  shows "product_items c = concat (map (group_items (emitted_groups c)) (emitted_groups c))"
proof -
  let ?S = "sort_key fst (unique_products_by_target c)"
  let ?G = "emitted_groups c"
  have d: "distinct (map fst ?S)"
    using assms by (simp add: wf_by_target_def distinct_sort_key_fst)
  have each: "target_items x =
      concat (map (group_items ?G)
        ((\<lambda>(ti, emap). map (\<lambda>(ed, products). ((ti, ed), products)) (sort_key fst emap)) x))"
    if "x \<in> set ?S" for x
  proof -
    obtain ti emap where x: "x = (ti, emap)" by (cases x)
    from count_groups_of_target[OF d, of ti emap "sort_key fst"] that x
    have "length (filter (\<lambda>g. fst (fst g) = ti) ?G) = length emap"
      by (simp add: emitted_groups_def)
    from target_items_groups[OF this] x show ?thesis by simp
  qed
  have "product_items c = concat (map target_items ?S)" by (simp add: product_items_def)
  also have "\<dots> = concat (map (\<lambda>x. concat (map (group_items ?G)
        ((\<lambda>(ti, emap). map (\<lambda>(ed, products). ((ti, ed), products)) (sort_key fst emap)) x))) ?S)"
    by (rule arg_cong[where f = concat], rule map_cong[OF refl], rule each)
  also have "\<dots> = concat (map (group_items ?G) ?G)"
    unfolding emitted_groups_def[of c] concat_map_concat by (simp add: comp_def)
  finally show ?thesis .
qed

lemma sorted_emitted_groups:
  assumes "wf_by_target (unique_products_by_target c)"
  shows "sorted_wrt group_key_less (map fst (emitted_groups c))"
proof -
  let ?S = "sort_key fst (unique_products_by_target c)"
  let ?R = "\<lambda>a b. group_key_less (fst a) (fst b)"
  let ?F = "\<lambda>(ti, emap). map (\<lambda>(ed, products). ((ti, ed), products)) (sort_key fst emap)"
  have outer: "sorted_wrt (\<lambda>a b. fst a < fst b) ?S"
    using assms by (simp add: wf_by_target_def strict_sorted_sort_key)
  have inner: "sorted_wrt ?R xs" if "xs \<in> set (map ?F ?S)" for xs
  proof -
    from that obtain ti emap where m: "(ti, emap) \<in> set (unique_products_by_target c)"
      and xs: "xs = map (\<lambda>(ed, products). ((ti, ed), products)) (sort_key fst emap)"
      by auto
    from m assms have "distinct (map fst emap)" by (auto simp: wf_by_target_def)
    then have "sorted_wrt (\<lambda>a b. fst a < fst b) (sort_key fst emap)"
      by (rule strict_sorted_sort_key)
    then show ?thesis unfolding xs
      by (simp add: sorted_wrt_map group_key_less_def case_prod_unfold)
  qed
  have "sorted_wrt (\<lambda>xs ys. \<forall>x\<in>set xs. \<forall>y\<in>set ys. ?R x y) (map ?F ?S)"
    unfolding sorted_wrt_map
    by (rule sorted_wrt_mono_rel[OF _ outer]) (auto simp: group_key_less_def)
  with inner have "sorted_wrt ?R (concat (map ?F ?S))" by (rule sorted_wrt_concat)
  then show ?thesis by (simp add: emitted_groups_def sorted_wrt_map)
qed

lemma mset_emitted_groups: "mset (emitted_groups c) = mset (groups_of c)"
proof -
  have "mset (concat (map (\<lambda>(ti, emap). map (\<lambda>(ed, products). ((ti, ed), products)) (sort_key fst emap))
          (sort_key fst (unique_products_by_target c)))) =
        mset (concat (map (\<lambda>(ti, emap). map (\<lambda>(ed, products). ((ti, ed), products)) (sort_key fst emap))
          (unique_products_by_target c)))"
    by (rule mset_concat_map_cong) simp
  also have "\<dots> = mset (concat (map (\<lambda>(ti, emap). map (\<lambda>(ed, products). ((ti, ed), products)) emap)
          (unique_products_by_target c)))"
    unfolding mset_concat_map_sum
    by (rule arg_cong[where f = sum_mset], rule image_mset_cong) auto
  finally show ?thesis by (simp add: emitted_groups_def groups_of_def)
qed


lemma rule_items_rules_of:
  "rule_items project =
     concat (map (\<lambda>(n, r). [Rule n r, Newline]) (rules_of (rule_items project)))"
  unfolding rules_of_rule_items by (simp add: rule_items_def)

text \<open>
  C3.  A script that is written consists of: items without a build step, the
  regeneration build step, the registered rules sorted by name (each of them, once),
  the optional environment listing (no rule, no build step), and the product groups.
  The groups are all the groups of the collector, ordered by target identifier and then
  by digest; a group is annotated with the identifier alone when its target has one
  group, and with identifier and digest when it has several.
\<close>

theorem script_order:
  "fst (write_ninja_files fault flushed project dump fs) = None \<longrightarrow>
     (\<exists>c pre listing.
        collect_targets (concrete_targets project) empty_collector = Inr c \<and>
        snd (write_ninja_files fault flushed project dump fs) ''build.ninja'' =
          Some (pre @ [Build (regeneration_build project), Newline] @ rule_items project @
                listing @ product_items c) \<and>
        builds_of pre = [] \<and> builds_of (rule_items project) = [] \<and>
        builds_of listing = [] \<and> rules_of listing = [] \<and>
        rule_items project =
          concat (map (\<lambda>(n, r). [Rule n r, Newline]) (rules_of (rule_items project))) \<and>
        sorted (map fst (rules_of (rule_items project))) \<and>
        mset (rules_of (rule_items project)) = mset (ninja_rules project) \<and>
        product_items c = concat (map (group_items (emitted_groups c)) (emitted_groups c)) \<and>
        sorted_wrt group_key_less (map fst (emitted_groups c)) \<and>
        mset (emitted_groups c) = mset (groups_of c))"
proof (cases "fst (write_ninja_files fault flushed project dump fs)")
  case (Some e)
  then show ?thesis by simp
next
  case None
  from write_ninja_files_returns[OF None] obtain c where
    Inr: "collect_targets (concrete_targets project) empty_collector = Inr c" and
    w: "write_ninja_files fault flushed project dump fs =
          (None, (fs(''build.ninja'' \<mapsto>
             header_items project @ rule_items project @
             (if dump then environment_listing (environments_by_digest c) else []) @
             product_items c))(''.build.ninja.tmp'' := None))"
    by blast
  define pre where "pre = take 5 (header_items project)"
  define listing where
    "listing = (if dump then environment_listing (environments_by_digest c) else [])"
  have h: "header_items project = pre @ [Build (regeneration_build project), Newline]"
    by (simp add: pre_def header_items_def)
  have wf: "wf_by_target (unique_products_by_target c)" using Inr by (rule wf_collected)
  have 1: "snd (write_ninja_files fault flushed project dump fs) ''build.ninja'' =
          Some (pre @ [Build (regeneration_build project), Newline] @ rule_items project @
                listing @ product_items c)"
    unfolding w h listing_def by simp
  have 2: "builds_of pre = []" by (simp add: pre_def header_items_def)
  have 3: "builds_of listing = []" "rules_of listing = []"
    by (simp_all add: listing_def builds_of_environment_listing rules_of_environment_listing)
  have 4: "sorted (map fst (rules_of (rule_items project)))"
    "mset (rules_of (rule_items project)) = mset (ninja_rules project)"
    by (simp_all add: rules_of_rule_items)
  show ?thesis
    by (intro impI exI[of _ c] exI[of _ pre] exI[of _ listing] conjI Inr 1 2 3 4
        builds_of_rule_items rule_items_rules_of product_items_groups[OF wf]
        sorted_emitted_groups[OF wf] mset_emitted_groups)
qed

lemma emitted_groups_example:
  "emitted_groups example_collected =
     [((''//app:B1'', ''top''), [example_dict ''b1'' ''link'']),
      ((''//app:B2'', ''top''), [example_dict ''b2'' ''link'']),
      ((''//lib:L'', ''e1''), [example_dict ''foo.o'' ''cc'']),
      ((''//lib:L'', ''e2''), [example_dict ''bar.o'' ''cc''])]"
  by (simp add: emitted_groups_def example_collected_def)

theorem script_order_witness:
  "fst (write_ninja_files None 0 example_build False Map.empty) = None \<and>
   product_items example_collected =
     [Comment ''---- target //app:B1'', Build (example_dict ''b1'' ''link''), Newline,
      Comment ''---- target //app:B2'', Build (example_dict ''b2'' ''link''), Newline,
      Comment ''---- target //lib:L @ e1'', Build (example_dict ''foo.o'' ''cc''), Newline,
      Comment ''---- target //lib:L @ e2'', Build (example_dict ''bar.o'' ''cc''), Newline] \<and>
   sorted_wrt group_key_less (map fst (emitted_groups example_collected))"
proof -
  have f: "fst (write_ninja_files None 0 example_build False Map.empty) = None"
    by (simp add: write_ninja_files_success[OF example_build_collects])
  from script_order [of None 0 example_build False Map.empty, THEN mp, OF f]
  obtain c where c: "collect_targets (concrete_targets example_build) empty_collector = Inr c"
    and p: "product_items c = concat (map (group_items (emitted_groups c)) (emitted_groups c))"
    and s: "sorted_wrt group_key_less (map fst (emitted_groups c))"
    by blast
  from c have ce: "c = example_collected" by (simp add: example_build_collects)
  from p have "product_items example_collected =
     [Comment ''---- target //app:B1'', Build (example_dict ''b1'' ''link''), Newline,
      Comment ''---- target //app:B2'', Build (example_dict ''b2'' ''link''), Newline,
      Comment ''---- target //lib:L @ e1'', Build (example_dict ''foo.o'' ''cc''), Newline,
      Comment ''---- target //lib:L @ e2'', Build (example_dict ''bar.o'' ''cc''), Newline]"
    unfolding ce emitted_groups_example by (simp add: group_items_def)
  with f s show ?thesis unfolding ce by (intro conjI)
qed

section \<open>Collecting products\<close>

text \<open>The key under which a build step is registered: the set of its output paths.\<close>

definition output_key :: "ninja_dict \<Rightarrow> string set" where
  "output_key d = set (outputs d)"

text \<open>The build steps observed in a product map, in the order of the first pass.\<close>

definition observed_dicts :: "product_map \<Rightarrow> ninja_dict list" where
  "observed_dicts pm = concat (map (\<lambda>(k, products). concat (map ninja_dicts products)) pm)"

text \<open>The items of the product maps of the targets whose evaluation returns.\<close>

definition observed_maps :: "target list \<Rightarrow> product_map" where
  "observed_maps ts = concat (map (\<lambda>t. case evaluate t of Inl e \<Rightarrow> [] | Inr pm \<Rightarrow> pm) ts)"

text \<open>The build steps a collector holds for emission.\<close>

definition stored_dicts :: "collector \<Rightarrow> ninja_dict list" where
  "stored_dicts c = concat (map snd (groups_of c))"

text \<open>
  The group of an item of a product map, and the guarantee of the memoised evaluator:
  the same target under the same digest comes with the same build steps.
\<close>

definition group_key :: "(string \<times> environment option) \<times> product list \<Rightarrow> string \<times> string" where
  "group_key = (\<lambda>((ti, env), products). (ti, case env of None \<Rightarrow> ''top'' | Some e \<Rightarrow> digest e))"

definition consistent_groups :: "product_map \<Rightarrow> bool" where
  "consistent_groups pm \<longleftrightarrow>
     (\<forall>x\<in>set pm. \<forall>y\<in>set pm. group_key x = group_key y \<longrightarrow>
        observed_dicts [x] = observed_dicts [y])"

lemma collect_ninja_dicts_Inr:
  assumes "collect_ninja_dicts ds by_output flat = Inr (by_output', flat')"
  shows "\<exists>new. flat' = flat @ new \<and> distinct (map output_key new) \<and>
     (\<forall>d\<in>set new. by_output (output_key d) = None \<and> d \<in> set ds) \<and>
     (\<forall>d\<in>set ds. by_output' (output_key d) = Some d) \<and>
     (\<forall>k d. by_output k = Some d \<longrightarrow> by_output' k = Some d) \<and>
     (\<forall>k d. by_output' k = Some d \<longrightarrow> by_output k = Some d \<or> (d \<in> set new \<and> k = output_key d))"
  using assms
proof (induction ds arbitrary: by_output flat)
  case Nil
  then show ?case by (intro exI[of _ "[]"]) simp
next
  case (Cons d ds)
  show ?case
  proof (cases "by_output (output_key d)")
    case None
    with Cons.prems have r: "collect_ninja_dicts ds (by_output(output_key d \<mapsto> d)) (flat @ [d]) =
        Inr (by_output', flat')"
      by (simp add: output_key_def Let_def)
    from Cons.IH[OF r] obtain new where new: "flat' = (flat @ [d]) @ new"
      "distinct (map output_key new)"
      "\<forall>d'\<in>set new. (by_output(output_key d \<mapsto> d)) (output_key d') = None \<and> d' \<in> set ds"
      "\<forall>d'\<in>set ds. by_output' (output_key d') = Some d'"
      "\<forall>k d'. (by_output(output_key d \<mapsto> d)) k = Some d' \<longrightarrow> by_output' k = Some d'"
      "\<forall>k d'. by_output' k = Some d' \<longrightarrow>
          (by_output(output_key d \<mapsto> d)) k = Some d' \<or> (d' \<in> set new \<and> k = output_key d')"
      by blast
    have fresh: "output_key d \<notin> output_key ` set new"
      using new(3) by (auto split: if_splits)
    have 1: "flat' = flat @ (d # new)" using new(1) by simp
    have 2: "distinct (map output_key (d # new))" using new(2) fresh by simp
    have 3: "\<forall>d'\<in>set (d # new). by_output (output_key d') = None \<and> d' \<in> set (d # ds)"
      using new(3) None by (auto split: if_splits)
    have 4: "\<forall>d'\<in>set (d # ds). by_output' (output_key d') = Some d'"
      using new(4) new(5) by auto
    have 5: "\<forall>k d'. by_output k = Some d' \<longrightarrow> by_output' k = Some d'"
    proof (intro allI impI)
      fix k d' assume a: "by_output k = Some d'"
      with None have "k \<noteq> output_key d" by auto
      with a have "(by_output(output_key d \<mapsto> d)) k = Some d'" by simp
      with new(5) show "by_output' k = Some d'" by blast
    qed
    have 6: "\<forall>k d'. by_output' k = Some d' \<longrightarrow>
        by_output k = Some d' \<or> (d' \<in> set (d # new) \<and> k = output_key d')"
      using new(6) by (auto split: if_splits)
    from 1 2 3 4 5 6 show ?thesis by blast
  next
    case (Some prev)
    with Cons.prems have eq: "prev = d"
      and r: "collect_ninja_dicts ds by_output flat = Inr (by_output', flat')"
      by (auto simp: output_key_def Let_def split: if_splits)
    from Cons.IH[OF r] obtain new where new: "flat' = flat @ new"
      "distinct (map output_key new)"
      "\<forall>d'\<in>set new. by_output (output_key d') = None \<and> d' \<in> set ds"
      "\<forall>d'\<in>set ds. by_output' (output_key d') = Some d'"
      "\<forall>k d'. by_output k = Some d' \<longrightarrow> by_output' k = Some d'"
      "\<forall>k d'. by_output' k = Some d' \<longrightarrow>
          by_output k = Some d' \<or> (d' \<in> set new \<and> k = output_key d')"
      by blast
    have 3: "\<forall>d'\<in>set new. by_output (output_key d') = None \<and> d' \<in> set (d # ds)"
      using new(3) by auto
    have 4: "\<forall>d'\<in>set (d # ds). by_output' (output_key d') = Some d'"
      using new(4) new(5) Some eq by auto
    from new(1) new(2) 3 4 new(5) new(6) show ?thesis by blast
  qed
qed

lemma collect_ninja_dicts_Inl:
  assumes "collect_ninja_dicts ds by_output flat = Inl e"
    and "\<forall>k d. by_output k = Some d \<longrightarrow> output_key d = k"
  shows "\<exists>d prev. d \<in> set ds \<and> prev \<noteq> d \<and> output_key prev = output_key d \<and>
     e = Conflicting_rules (output_key d) \<and>
     (by_output (output_key d) = Some prev \<or> prev \<in> set ds)"
  using assms
proof (induction ds arbitrary: by_output flat)
  case Nil
  then show ?case by simp
next
  case (Cons d ds)
  show ?case
  proof (cases "by_output (output_key d)")
    case None
    with Cons.prems(1) have r: "collect_ninja_dicts ds (by_output(output_key d \<mapsto> d)) (flat @ [d]) = Inl e"
      by (simp add: output_key_def Let_def)
    have k: "\<forall>k d'. (by_output(output_key d \<mapsto> d)) k = Some d' \<longrightarrow> output_key d' = k"
      using Cons.prems(2) by auto
    from Cons.IH[OF r k] obtain d' prev where c: "d' \<in> set ds" "prev \<noteq> d'"
      "output_key prev = output_key d'" "e = Conflicting_rules (output_key d')"
      "(by_output(output_key d \<mapsto> d)) (output_key d') = Some prev \<or> prev \<in> set ds"
      by blast
    from c(5) have "by_output (output_key d') = Some prev \<or> prev \<in> set (d # ds)"
      by (auto split: if_splits)
    with c show ?thesis by (intro exI[of _ d'] exI[of _ prev]) simp
  next
    case (Some prev)
    show ?thesis
    proof (cases "prev = d")
      case True
      with Some Cons.prems(1) have r: "collect_ninja_dicts ds by_output flat = Inl e"
        by (simp add: output_key_def Let_def)
      from Cons.IH[OF r Cons.prems(2)] show ?thesis by auto
    next
      case False
      with Some Cons.prems(1) have "e = Conflicting_rules (output_key d)"
        by (simp add: output_key_def Let_def)
      moreover from Some Cons.prems(2) have "output_key prev = output_key d" by simp
      ultimately show ?thesis using False Some
        by (intro exI[of _ d] exI[of _ prev]) simp
    qed
  qed
qed


text \<open>The collector after one item of a product map.\<close>

definition step_collector ::
  "string \<Rightarrow> environment option \<Rightarrow> (string set \<rightharpoonup> ninja_dict) \<Rightarrow> ninja_dict list \<Rightarrow>
   collector \<Rightarrow> collector" where
  "step_collector ti env by_output flat c =
     \<lparr>unique_products_by_target =
        (if flat \<noteq> []
         then set_target_env ti (case env of None \<Rightarrow> ''top'' | Some e \<Rightarrow> digest e) flat
                (unique_products_by_target c)
         else unique_products_by_target c),
      unique_products_by_output = by_output,
      environments_by_digest =
        AList.update (case env of None \<Rightarrow> ''top'' | Some e \<Rightarrow> digest e) env
          (environments_by_digest c)\<rparr>"

lemma collect_product_map_Cons:
  "collect_product_map (((ti, env), products) # rest) c =
     (case collect_ninja_dicts (observed_dicts [((ti, env), products)])
             (unique_products_by_output c) [] of
        Inl e \<Rightarrow> Inl e
      | Inr (by_output, flat) \<Rightarrow> collect_product_map rest (step_collector ti env by_output flat c))"
  by (simp add: Let_def observed_dicts_def step_collector_def split: sum.splits)

text \<open>What the pass maintains, relative to the items seen so far.\<close>

definition base_inv :: "product_map \<Rightarrow> collector \<Rightarrow> bool" where
  "base_inv seen c \<longleftrightarrow>
     (\<forall>k d. unique_products_by_output c k = Some d \<longrightarrow> output_key d = k) \<and>
     distinct (map output_key (stored_dicts c)) \<and>
     (\<forall>d\<in>set (stored_dicts c). unique_products_by_output c (output_key d) = Some d) \<and>
     (\<forall>d\<in>set (observed_dicts seen). unique_products_by_output c (output_key d) = Some d) \<and>
     (\<forall>k d. unique_products_by_output c k = Some d \<longrightarrow> d \<in> set (observed_dicts seen))"

definition full_inv :: "product_map \<Rightarrow> collector \<Rightarrow> bool" where
  "full_inv seen c \<longleftrightarrow>
     (\<forall>k d. unique_products_by_output c k = Some d \<longrightarrow> d \<in> set (stored_dicts c)) \<and>
     fst ` set (groups_of c) \<subseteq> group_key ` set seen"

lemma mset_concat_update:
  "mset (concat (map (\<lambda>(k, v). f v) (AList.update k v al))) +
     mset (case map_of al k of None \<Rightarrow> [] | Some v0 \<Rightarrow> f v0) =
   mset (concat (map (\<lambda>(k, v). f v) al)) + mset (f v)"
  by (induction al) auto

lemma stored_dicts_alt:
  "stored_dicts c =
     concat (map (\<lambda>(ti, emap). concat (map (\<lambda>(ed, flat). flat) emap))
       (unique_products_by_target c))"
proof -
  have "concat (map snd (concat (map (\<lambda>(ti, emap). map (\<lambda>(ed, products). ((ti, ed), products)) emap) xs))) =
        concat (map (\<lambda>(ti, emap). concat (map (\<lambda>(ed, flat). flat) emap)) xs)" for xs
    by (induction xs) (auto simp: comp_def case_prod_unfold)
  then show ?thesis by (simp add: stored_dicts_def groups_of_def)
qed

text \<open>The build steps held for one target under one digest.\<close>

definition stored_group ::
  "(string \<times> (string \<times> ninja_dict list) list) list \<Rightarrow> string \<Rightarrow> string \<Rightarrow> ninja_dict list" where
  "stored_group by_target ti ed =
     (case map_of by_target ti of
        None \<Rightarrow> []
      | Some emap \<Rightarrow> (case map_of emap ed of None \<Rightarrow> [] | Some flat \<Rightarrow> flat))"

lemma mset_stored_set_target_env:
  assumes "unique_products_by_target c' = set_target_env ti ed flat (unique_products_by_target c)"
  shows "mset (stored_dicts c') + mset (stored_group (unique_products_by_target c) ti ed) =
         mset (stored_dicts c) + mset flat"
proof -
  let ?bt = "unique_products_by_target c"
  define old where "old = (case map_of ?bt ti of None \<Rightarrow> [] | Some emap \<Rightarrow> emap)"
  let ?f = "\<lambda>emap. concat (map (\<lambda>(ed, flat). flat) emap)"
  have outer: "mset (stored_dicts c') + mset (case map_of ?bt ti of None \<Rightarrow> [] | Some e0 \<Rightarrow> ?f e0) =
      mset (stored_dicts c) + mset (?f (AList.update ed flat old))"
    unfolding stored_dicts_alt assms set_target_env_def old_def
    by (rule mset_concat_update)
  have o: "(case map_of ?bt ti of None \<Rightarrow> [] | Some e0 \<Rightarrow> ?f e0) = ?f old"
    by (simp add: old_def split: option.splits)
  have g: "stored_group ?bt ti ed = (case map_of old ed of None \<Rightarrow> [] | Some f0 \<Rightarrow> f0)"
    by (simp add: stored_group_def old_def split: option.splits)
  have inner: "mset (?f (AList.update ed flat old)) + mset (stored_group ?bt ti ed) =
      mset (?f old) + mset flat"
    unfolding g by (rule mset_concat_update[where f = "\<lambda>v. v"])
  have "(mset (stored_dicts c') + mset (stored_group ?bt ti ed)) + mset (?f old) =
        (mset (stored_dicts c') + mset (?f old)) + mset (stored_group ?bt ti ed)"
    by (simp add: ac_simps)
  also have "\<dots> = (mset (stored_dicts c) + mset (?f (AList.update ed flat old))) +
        mset (stored_group ?bt ti ed)"
    using outer unfolding o by simp
  also have "\<dots> = mset (stored_dicts c) +
        (mset (?f (AList.update ed flat old)) + mset (stored_group ?bt ti ed))"
    by (simp add: ac_simps)
  also have "\<dots> = mset (stored_dicts c) + (mset (?f old) + mset flat)"
    unfolding inner by simp
  also have "\<dots> = (mset (stored_dicts c) + mset flat) + mset (?f old)"
    by (simp add: ac_simps)
  finally show ?thesis by (simp only: add_right_cancel)
qed

lemma group_keys_iff:
  "(t, e) \<in> fst ` set (groups_of c) \<longleftrightarrow>
   (\<exists>emap. (t, emap) \<in> set (unique_products_by_target c) \<and> e \<in> fst ` set emap)"
  by (force simp: groups_of_def)

lemma group_keys_set_target_env:
  assumes "unique_products_by_target c' = set_target_env ti ed flat (unique_products_by_target c)"
  shows "fst ` set (groups_of c') \<subseteq> insert (ti, ed) (fst ` set (groups_of c))"
proof
  fix x assume x: "x \<in> fst ` set (groups_of c')"
  obtain t e where te: "x = (t, e)" by (cases x)
  let ?bt = "unique_products_by_target c"
  define old where "old = (case map_of ?bt ti of None \<Rightarrow> [] | Some emap \<Rightarrow> emap)"
  have oldin: "old = [] \<or> (ti, old) \<in> set ?bt"
    by (auto simp: old_def dest: map_of_SomeD split: option.splits)
  from x te obtain emap where m: "(t, emap) \<in> set (unique_products_by_target c')"
    "e \<in> fst ` set emap" by (auto simp: group_keys_iff)
  from m(1) set_update_subset[of ti "AList.update ed flat old" ?bt]
  have "(t, emap) = (ti, AList.update ed flat old) \<or> (t, emap) \<in> set ?bt"
    unfolding assms set_target_env_def old_def by auto
  then show "x \<in> insert (ti, ed) (fst ` set (groups_of c))"
  proof
    assume a: "(t, emap) = (ti, AList.update ed flat old)"
    with m(2) have "e = ed \<or> e \<in> fst ` set old" by (auto simp: dom_update)
    with a oldin te show ?thesis by (auto simp: group_keys_iff)
  next
    assume "(t, emap) \<in> set ?bt"
    with m(2) te show ?thesis by (auto simp: group_keys_iff)
  qed
qed

lemma stored_group_absent:
  "(ti, ed) \<notin> fst ` set (groups_of c) \<Longrightarrow> stored_group (unique_products_by_target c) ti ed = []"
proof -
  assume a: "(ti, ed) \<notin> fst ` set (groups_of c)"
  show ?thesis
  proof (cases "map_of (unique_products_by_target c) ti")
    case None
    then show ?thesis by (simp add: stored_group_def)
  next
    case (Some emap)
    then have m: "(ti, emap) \<in> set (unique_products_by_target c)" by (rule map_of_SomeD)
    have "map_of emap ed = None"
    proof (cases "map_of emap ed")
      case None
      then show ?thesis .
    next
      case (Some f0)
      then have "(ed, f0) \<in> set emap" by (rule map_of_SomeD)
      then have "ed \<in> fst ` set emap" by force
      with m have "(ti, ed) \<in> fst ` set (groups_of c)" unfolding group_keys_iff by blast
      with a show ?thesis by simp
    qed
    with Some show ?thesis by (simp add: stored_group_def)
  qed
qed

lemma distinct_map_mset_le:
  assumes "mset xs + m = mset ys" and "distinct (map f ys)"
  shows "distinct (map f xs)"
proof -
  have "mset xs \<subseteq># mset ys" unfolding assms(1)[symmetric] by simp
  then have "image_mset f (mset xs) \<subseteq># image_mset f (mset ys)"
    by (rule image_mset_subseteq_mono)
  then have le: "mset (map f xs) \<subseteq># mset (map f ys)" by simp
  have one: "count (mset (map f ys)) a \<le> 1" for a
    using assms(2) by (simp only: distinct_count_atmost_1) simp
  have "count (mset (map f xs)) a = (if a \<in> set (map f xs) then 1 else 0)" for a
  proof (cases "a \<in> set (map f xs)")
    case True
    then have "0 < count (mset (map f xs)) a" by (simp only: count_greater_zero_iff set_mset_mset)
    moreover have "count (mset (map f xs)) a \<le> count (mset (map f ys)) a"
      using le by (rule mset_subset_eq_count)
    ultimately have "count (mset (map f xs)) a = 1" using one[of a] by linarith
    with True show ?thesis by (simp only: if_True)
  next
    case False
    then have "count (mset (map f xs)) a = 0" by (simp only: count_eq_zero_iff set_mset_mset) simp
    with False show ?thesis by simp
  qed
  then show ?thesis by (simp only: distinct_count_atmost_1) simp
qed


lemma observed_dicts_append:
  "observed_dicts (xs @ ys) = observed_dicts xs @ observed_dicts ys"
  by (simp add: observed_dicts_def)

lemma observed_dicts_member:
  "y \<in> set seen \<Longrightarrow> set (observed_dicts [y]) \<subseteq> set (observed_dicts seen)"
  by (auto simp: observed_dicts_def)

lemma stored_dicts_cong:
  "unique_products_by_target c' = unique_products_by_target c \<Longrightarrow>
   stored_dicts c' = stored_dicts c"
  by (simp add: stored_dicts_alt)

lemma groups_of_cong:
  "unique_products_by_target c' = unique_products_by_target c \<Longrightarrow> groups_of c' = groups_of c"
  by (simp add: groups_of_def)

lemma consistent_groups_mono:
  "consistent_groups ys \<Longrightarrow> set xs \<subseteq> set ys \<Longrightarrow> consistent_groups xs"
  unfolding consistent_groups_def by blast

lemma step_base:
  assumes inv: "base_inv seen c"
    and r: "collect_ninja_dicts (observed_dicts [x]) (unique_products_by_output c) [] =
      Inr (bo, flat)"
  shows "base_inv (seen @ [x]) (step_collector ti env bo flat c)"
proof -
  let ?c' = "step_collector ti env bo flat c"
  let ?upo = "unique_products_by_output c"
  let ?ds = "observed_dicts [x]"
  from collect_ninja_dicts_Inr[OF r]
  have P2: "distinct (map output_key flat)"
    and P3: "\<forall>d\<in>set flat. ?upo (output_key d) = None \<and> d \<in> set ?ds"
    and P4: "\<forall>d\<in>set ?ds. bo (output_key d) = Some d"
    and P5: "\<forall>k d. ?upo k = Some d \<longrightarrow> bo k = Some d"
    and P6: "\<forall>k d. bo k = Some d \<longrightarrow> ?upo k = Some d \<or> (d \<in> set flat \<and> k = output_key d)"
    by auto
  from inv have K1: "\<forall>k d. ?upo k = Some d \<longrightarrow> output_key d = k"
    and K2: "distinct (map output_key (stored_dicts c))"
    and K3: "\<forall>d\<in>set (stored_dicts c). ?upo (output_key d) = Some d"
    and K4: "\<forall>d\<in>set (observed_dicts seen). ?upo (output_key d) = Some d"
    and K5: "\<forall>k d. ?upo k = Some d \<longrightarrow> d \<in> set (observed_dicts seen)"
    unfolding base_inv_def by blast+
  have upo': "unique_products_by_output ?c' = bo" by (simp add: step_collector_def)
  have sub: "\<exists>m. mset (stored_dicts ?c') + m = mset (stored_dicts c) + mset flat"
  proof (cases "flat = []")
    case True
    then have "stored_dicts ?c' = stored_dicts c"
      by (intro stored_dicts_cong) (simp add: step_collector_def)
    with True show ?thesis by (intro exI[of _ "{#}"]) simp
  next
    case False
    then have "unique_products_by_target ?c' =
        set_target_env ti (case env of None \<Rightarrow> ''top'' | Some e \<Rightarrow> digest e) flat
          (unique_products_by_target c)"
      by (simp add: step_collector_def)
    from mset_stored_set_target_env[OF this] show ?thesis by blast
  qed
  then obtain m where m: "mset (stored_dicts ?c') + m = mset (stored_dicts c) + mset flat" ..
  then have "set_mset (mset (stored_dicts ?c') + m) = set_mset (mset (stored_dicts c) + mset flat)"
    by simp
  then have sset: "set (stored_dicts ?c') \<subseteq> set (stored_dicts c) \<union> set flat" by auto
  have disj: "output_key ` set (stored_dicts c) \<inter> output_key ` set flat = {}"
  proof (rule ccontr)
    assume "output_key ` set (stored_dicts c) \<inter> output_key ` set flat \<noteq> {}"
    then obtain d d' where dd: "d \<in> set (stored_dicts c)" "d' \<in> set flat"
      "output_key d = output_key d'" by auto
    from K3 dd(1) have "?upo (output_key d) = Some d" by (rule bspec)
    moreover from P3 dd(2) have "?upo (output_key d') = None" by blast
    ultimately show False using dd(3) by simp
  qed
  have N1: "\<forall>k d. bo k = Some d \<longrightarrow> output_key d = k" using P6 K1 by blast
  have "distinct (map output_key (stored_dicts c @ flat))" using K2 P2 disj by simp
  with m have N2: "distinct (map output_key (stored_dicts ?c'))"
    by (intro distinct_map_mset_le[of "stored_dicts ?c'" m "stored_dicts c @ flat"]) simp_all
  have N3: "\<forall>d\<in>set (stored_dicts ?c'). bo (output_key d) = Some d"
  proof
    fix d assume "d \<in> set (stored_dicts ?c')"
    with sset have "d \<in> set (stored_dicts c) \<or> d \<in> set flat" by auto
    then show "bo (output_key d) = Some d"
    proof
      assume "d \<in> set (stored_dicts c)"
      with K3 have "?upo (output_key d) = Some d" by (rule bspec)
      with P5 show ?thesis by blast
    next
      assume "d \<in> set flat"
      with P3 have "d \<in> set ?ds" by blast
      with P4 show ?thesis by (rule bspec)
    qed
  qed
  have N4: "\<forall>d\<in>set (observed_dicts (seen @ [x])). bo (output_key d) = Some d"
  proof
    fix d assume "d \<in> set (observed_dicts (seen @ [x]))"
    then have "d \<in> set (observed_dicts seen) \<or> d \<in> set ?ds"
      unfolding observed_dicts_append by simp
    then show "bo (output_key d) = Some d"
    proof
      assume "d \<in> set (observed_dicts seen)"
      with K4 have "?upo (output_key d) = Some d" by (rule bspec)
      with P5 show ?thesis by blast
    next
      assume "d \<in> set ?ds"
      with P4 show ?thesis by (rule bspec)
    qed
  qed
  have N5: "\<forall>k d. bo k = Some d \<longrightarrow> d \<in> set (observed_dicts (seen @ [x]))"
  proof (intro allI impI)
    fix k d assume "bo k = Some d"
    with P6 have "?upo k = Some d \<or> d \<in> set flat" by blast
    then have "d \<in> set (observed_dicts seen) \<or> d \<in> set ?ds"
      using K5 P3 by blast
    then show "d \<in> set (observed_dicts (seen @ [x]))"
      unfolding observed_dicts_append by simp
  qed
  from N1 N2 N3 N4 N5 show ?thesis unfolding base_inv_def upo' by blast
qed

lemma step_full:
  assumes inv: "base_inv seen c" and full: "full_inv seen c"
    and r: "collect_ninja_dicts (observed_dicts [x]) (unique_products_by_output c) [] =
      Inr (bo, flat)"
    and x: "x = ((ti, env), products)"
    and cons: "consistent_groups (seen @ [x])"
  shows "full_inv (seen @ [x]) (step_collector ti env bo flat c)"
proof -
  let ?c' = "step_collector ti env bo flat c"
  let ?upo = "unique_products_by_output c"
  let ?ds = "observed_dicts [x]"
  define ed where "ed = (case env of None \<Rightarrow> ''top'' | Some e \<Rightarrow> digest e)"
  from collect_ninja_dicts_Inr[OF r]
  have P3: "\<forall>d\<in>set flat. ?upo (output_key d) = None \<and> d \<in> set ?ds"
    and P6: "\<forall>k d. bo k = Some d \<longrightarrow> ?upo k = Some d \<or> (d \<in> set flat \<and> k = output_key d)"
    by auto
  from inv have K4: "\<forall>d\<in>set (observed_dicts seen). ?upo (output_key d) = Some d"
    unfolding base_inv_def by blast
  from full have K6: "\<forall>k d. ?upo k = Some d \<longrightarrow> d \<in> set (stored_dicts c)"
    and K7: "fst ` set (groups_of c) \<subseteq> group_key ` set seen"
    unfolding full_inv_def by blast+
  have gk: "group_key x = (ti, ed)" by (simp add: x group_key_def ed_def)
  have upo': "unique_products_by_output ?c' = bo" by (simp add: step_collector_def)
  have seen': "group_key ` set seen \<subseteq> group_key ` set (seen @ [x])" by auto
  show ?thesis
  proof (cases "flat = []")
    case True
    have bt: "unique_products_by_target ?c' = unique_products_by_target c"
      using True by (simp add: step_collector_def)
    have "\<forall>k d. bo k = Some d \<longrightarrow> d \<in> set (stored_dicts ?c')"
    proof (intro allI impI)
      fix k d assume "bo k = Some d"
      with P6 True have "?upo k = Some d" by auto
      with K6 show "d \<in> set (stored_dicts ?c')" unfolding stored_dicts_cong[OF bt] by blast
    qed
    moreover have "fst ` set (groups_of ?c') \<subseteq> group_key ` set (seen @ [x])"
      unfolding groups_of_cong[OF bt] using K7 seen' by (rule subset_trans)
    ultimately show ?thesis unfolding full_inv_def upo' by blast
  next
    case False
    have bt: "unique_products_by_target ?c' =
        set_target_env ti ed flat (unique_products_by_target c)"
      using False by (simp add: step_collector_def ed_def)
    have absent: "(ti, ed) \<notin> fst ` set (groups_of c)"
    proof
      assume "(ti, ed) \<in> fst ` set (groups_of c)"
      with K7 have "(ti, ed) \<in> group_key ` set seen" by (rule subsetD)
      then obtain y where y: "y \<in> set seen" "group_key y = (ti, ed)" by auto
      from y(1) have ym: "y \<in> set (seen @ [x])" and xm: "x \<in> set (seen @ [x])" by simp_all
      from cons have "\<forall>a\<in>set (seen @ [x]). \<forall>b\<in>set (seen @ [x]).
          group_key a = group_key b \<longrightarrow> observed_dicts [a] = observed_dicts [b]"
        unfolding consistent_groups_def .
      from this[THEN bspec, OF ym, THEN bspec, OF xm] y(2) gk
      have same: "observed_dicts [y] = observed_dicts [x]" by simp
      from False obtain d where d: "d \<in> set flat" by (cases flat) auto
      from P3 d have n: "?upo (output_key d) = None" and dm: "d \<in> set ?ds" by blast+
      from dm same have "d \<in> set (observed_dicts [y])" by simp
      with observed_dicts_member[OF y(1)] have "d \<in> set (observed_dicts seen)" by (rule subsetD)
      with K4 have "?upo (output_key d) = Some d" by (rule bspec)
      with n show False by simp
    qed
    from mset_stored_set_target_env[OF bt] stored_group_absent[OF absent]
    have "mset (stored_dicts ?c') = mset (stored_dicts c) + mset flat" by simp
    then have "set_mset (mset (stored_dicts ?c')) = set_mset (mset (stored_dicts c) + mset flat)"
      by (rule arg_cong)
    then have sset: "set (stored_dicts ?c') = set (stored_dicts c) \<union> set flat" by simp
    have "\<forall>k d. bo k = Some d \<longrightarrow> d \<in> set (stored_dicts ?c')"
    proof (intro allI impI)
      fix k d assume "bo k = Some d"
      with P6 have "?upo k = Some d \<or> d \<in> set flat" by blast
      with K6 have "d \<in> set (stored_dicts c) \<or> d \<in> set flat" by blast
      then show "d \<in> set (stored_dicts ?c')" unfolding sset by simp
    qed
    moreover have "fst ` set (groups_of ?c') \<subseteq> group_key ` set (seen @ [x])"
    proof
      fix g assume "g \<in> fst ` set (groups_of ?c')"
      with group_keys_set_target_env[OF bt] have "g = (ti, ed) \<or> g \<in> fst ` set (groups_of c)"
        by blast
      then show "g \<in> group_key ` set (seen @ [x])"
      proof
        assume "g = (ti, ed)"
        with gk have "g = group_key x" by simp
        then show ?thesis by simp
      next
        assume "g \<in> fst ` set (groups_of c)"
        with K7 seen' show ?thesis by blast
      qed
    qed
    ultimately show ?thesis unfolding full_inv_def upo' by blast
  qed
qed

lemma pass_invariants:
  "base_inv seen c \<Longrightarrow> collect_product_map pm c = Inr c' \<Longrightarrow>
   base_inv (seen @ pm) c' \<and>
   (full_inv seen c \<longrightarrow> consistent_groups (seen @ pm) \<longrightarrow> full_inv (seen @ pm) c')"
proof (induction pm arbitrary: seen c)
  case Nil
  then show ?case by simp
next
  case (Cons x pm)
  obtain ti env products where x: "x = ((ti, env), products)" by (cases x) auto
  from Cons.prems(2) obtain bo flat where
    r: "collect_ninja_dicts (observed_dicts [x]) (unique_products_by_output c) [] = Inr (bo, flat)"
    and rest: "collect_product_map pm (step_collector ti env bo flat c) = Inr c'"
    unfolding x collect_product_map_Cons by (auto split: sum.splits)
  have b: "base_inv (seen @ [x]) (step_collector ti env bo flat c)"
    using Cons.prems(1) r by (rule step_base)
  from Cons.IH[OF b rest]
  have ih: "base_inv (seen @ x # pm) c'"
    "full_inv (seen @ [x]) (step_collector ti env bo flat c) \<longrightarrow>
      consistent_groups (seen @ x # pm) \<longrightarrow> full_inv (seen @ x # pm) c'"
    by simp_all
  have "full_inv (seen @ x # pm) c'"
    if f: "full_inv seen c" and cons: "consistent_groups (seen @ x # pm)"
  proof -
    from cons have "consistent_groups (seen @ [x])"
      by (rule consistent_groups_mono) auto
    with Cons.prems(1) f r x have "full_inv (seen @ [x]) (step_collector ti env bo flat c)"
      by (intro step_full)
    with ih(2) cons show ?thesis by blast
  qed
  with ih(1) show ?case by blast
qed

lemma pass_fail:
  "base_inv seen c \<Longrightarrow> collect_product_map pm c = Inl e \<Longrightarrow>
   \<exists>d\<in>set (observed_dicts (seen @ pm)). \<exists>prev\<in>set (observed_dicts (seen @ pm)).
     prev \<noteq> d \<and> output_key prev = output_key d \<and> e = Conflicting_rules (output_key d)"
proof (induction pm arbitrary: seen c)
  case Nil
  then show ?case by simp
next
  case (Cons x pm)
  obtain ti env products where x: "x = ((ti, env), products)" by (cases x) auto
  show ?case
  proof (cases "collect_ninja_dicts (observed_dicts [x]) (unique_products_by_output c) []")
    case (Inl e')
    with Cons.prems(2) have e: "e' = e" unfolding x collect_product_map_Cons by simp
    from Cons.prems(1) have K1: "\<forall>k d. unique_products_by_output c k = Some d \<longrightarrow> output_key d = k"
      and K5: "\<forall>k d. unique_products_by_output c k = Some d \<longrightarrow> d \<in> set (observed_dicts seen)"
      unfolding base_inv_def by blast+
    from collect_ninja_dicts_Inl[OF Inl K1] obtain d prev where c: "d \<in> set (observed_dicts [x])"
      "prev \<noteq> d" "output_key prev = output_key d" "e' = Conflicting_rules (output_key d)"
      "unique_products_by_output c (output_key d) = Some prev \<or> prev \<in> set (observed_dicts [x])"
      by blast
    from c(5) K5 have "prev \<in> set (observed_dicts seen) \<or> prev \<in> set (observed_dicts [x])"
      by blast
    then have p: "prev \<in> set (observed_dicts (seen @ x # pm))"
      by (auto simp: observed_dicts_def)
    from c(1) have d: "d \<in> set (observed_dicts (seen @ x # pm))"
      by (auto simp: observed_dicts_def)
    from p d c e show ?thesis by blast
  next
    case (Inr res)
    obtain bo flat where res: "res = (bo, flat)" by (cases res)
    from Cons.prems(2) Inr res have rest: "collect_product_map pm (step_collector ti env bo flat c) = Inl e"
      unfolding x collect_product_map_Cons by simp
    have b: "base_inv (seen @ [x]) (step_collector ti env bo flat c)"
      using Cons.prems(1) Inr[unfolded res] by (rule step_base)
    from Cons.IH[OF b rest] show ?thesis by simp
  qed
qed


lemma collect_product_map_append:
  "collect_product_map (a @ b) c =
     (case collect_product_map a c of Inl e \<Rightarrow> Inl e | Inr c1 \<Rightarrow> collect_product_map b c1)"
  by (induction a c rule: collect_product_map.induct) (auto simp: Let_def split: sum.splits)

lemma observed_maps_Cons:
  "observed_maps (t # ts) = (case evaluate t of Inl e \<Rightarrow> [] | Inr pm \<Rightarrow> pm) @ observed_maps ts"
  by (simp add: observed_maps_def)

lemma collect_targets_Inr:
  "collect_targets ts c = Inr c' \<Longrightarrow>
   collect_product_map (observed_maps ts) c = Inr c' \<and> (\<forall>t\<in>set ts. \<exists>pm. evaluate t = Inr pm)"
proof (induction ts arbitrary: c)
  case Nil
  then show ?case by (simp add: observed_maps_def)
next
  case (Cons t ts)
  from Cons.prems obtain pm c1 where e: "evaluate t = Inr pm"
    and c1: "collect_product_map pm c = Inr c1" and rest: "collect_targets ts c1 = Inr c'"
    by (auto split: sum.splits)
  from Cons.IH[OF rest] e c1 show ?case
    by (simp add: observed_maps_Cons collect_product_map_append)
qed

lemma collect_targets_Inl:
  "collect_targets ts c = Inl e \<Longrightarrow>
   (\<exists>t\<in>set ts. evaluate t = Inl e) \<or>
   (\<exists>ts1 ts2. ts = ts1 @ ts2 \<and> collect_product_map (observed_maps ts1) c = Inl e)"
proof (induction ts arbitrary: c)
  case Nil
  then show ?case by simp
next
  case (Cons t ts)
  show ?case
  proof (cases "evaluate t")
    case (Inl e')
    with Cons.prems show ?thesis by simp
  next
    case (Inr pm)
    show ?thesis
    proof (cases "collect_product_map pm c")
      case (Inl e')
      with Inr Cons.prems have "collect_product_map (observed_maps [t]) c = Inl e"
        by (simp add: observed_maps_def)
      then have "\<exists>ts1 ts2. t # ts = ts1 @ ts2 \<and> collect_product_map (observed_maps ts1) c = Inl e"
        by (intro exI[of _ "[t]"] exI[of _ ts]) simp
      then show ?thesis ..
    next
      case c1: (Inr c1)
      with Inr Cons.prems have rest: "collect_targets ts c1 = Inl e" by simp
      from Cons.IH[OF rest] show ?thesis
      proof
        assume "\<exists>t\<in>set ts. evaluate t = Inl e"
        then show ?thesis by auto
      next
        assume "\<exists>ts1 ts2. ts = ts1 @ ts2 \<and> collect_product_map (observed_maps ts1) c1 = Inl e"
        then obtain ts1 ts2 where t: "ts = ts1 @ ts2"
          "collect_product_map (observed_maps ts1) c1 = Inl e" by blast
        have "collect_product_map (observed_maps (t # ts1)) c = Inl e"
          using Inr c1 t(2) by (simp add: observed_maps_Cons collect_product_map_append)
        with t(1) have "\<exists>ts1 ts2. t # ts = ts1 @ ts2 \<and>
            collect_product_map (observed_maps ts1) c = Inl e"
          by (intro exI[of _ "t # ts1"] exI[of _ ts2]) simp
        then show ?thesis ..
      qed
    qed
  qed
qed

lemma observed_maps_prefix:
  "set (observed_dicts (observed_maps ts1)) \<subseteq> set (observed_dicts (observed_maps (ts1 @ ts2)))"
  by (auto simp: observed_maps_def observed_dicts_def)

lemma invariants_empty: "base_inv [] empty_collector \<and> full_inv [] empty_collector"
  by (simp add: base_inv_def full_inv_def stored_dicts_def groups_of_def empty_collector_def
      observed_dicts_def)

lemma builds_of_concat_map:
  "builds_of (concat (map f xs)) = concat (map (\<lambda>x. builds_of (f x)) xs)"
  by (induction xs) (auto simp: builds_of_append)

lemma builds_of_map_Build: "builds_of (map Build ps) = ps"
  by (induction ps) auto

lemma builds_of_group_items: "builds_of (group_items groups g) = snd g"
  by (cases g) (auto simp: group_items_def builds_of_append builds_of_map_Build)

lemma mset_builds_of_product_items:
  assumes "wf_by_target (unique_products_by_target c)"
  shows "mset (builds_of (product_items c)) = mset (stored_dicts c)"
proof -
  have "builds_of (product_items c) = concat (map snd (emitted_groups c))"
    unfolding product_items_groups[OF assms] builds_of_concat_map builds_of_group_items ..
  moreover have "mset (concat (map snd (emitted_groups c))) = mset (concat (map snd (groups_of c)))"
    using mset_emitted_groups by (rule mset_concat_map_cong)
  ultimately show ?thesis by (simp add: stored_dicts_def)
qed

lemma count_list_distinct: "distinct xs \<Longrightarrow> x \<in> set xs \<Longrightarrow> count_list xs x = 1"
  by (induction xs) (auto simp: count_list_0_iff)


lemma first_pass_success:
  assumes "collect_targets ts empty_collector = Inr c"
  shows "\<forall>d\<in>set (observed_dicts (observed_maps ts)).
            unique_products_by_output c (output_key d) = Some d"
    and "distinct (map output_key (builds_of (product_items c)))"
    and "set (builds_of (product_items c)) \<subseteq> set (observed_dicts (observed_maps ts))"
    and "consistent_groups (observed_maps ts) \<Longrightarrow>
            set (builds_of (product_items c)) = set (observed_dicts (observed_maps ts))"
proof -
  let ?pm = "observed_maps ts"
  from collect_targets_Inr[OF assms] have p: "collect_product_map ?pm empty_collector = Inr c"
    by simp
  from invariants_empty have b0: "base_inv [] empty_collector" and f0: "full_inv [] empty_collector"
    by simp_all
  from pass_invariants[OF b0 p] have b: "base_inv ?pm c"
    and f: "consistent_groups ?pm \<longrightarrow> full_inv ?pm c" using f0 by simp_all
  have wf: "wf_by_target (unique_products_by_target c)" using assms by (rule wf_collected)
  note m = mset_builds_of_product_items[OF wf]
  from m have s: "set (builds_of (product_items c)) = set (stored_dicts c)"
    by (rule mset_eq_setD)
  from b have K2: "distinct (map output_key (stored_dicts c))"
    and K3: "\<forall>d\<in>set (stored_dicts c). unique_products_by_output c (output_key d) = Some d"
    and K4: "\<forall>d\<in>set (observed_dicts ?pm). unique_products_by_output c (output_key d) = Some d"
    and K5: "\<forall>k d. unique_products_by_output c k = Some d \<longrightarrow> d \<in> set (observed_dicts ?pm)"
    unfolding base_inv_def by blast+
  have "mset (builds_of (product_items c)) + {#} = mset (stored_dicts c)" using m by simp
  then have d: "distinct (map output_key (builds_of (product_items c)))"
    using K2 by (rule distinct_map_mset_le)
  have sub: "set (builds_of (product_items c)) \<subseteq> set (observed_dicts ?pm)"
    unfolding s using K3 K5 by blast
  have full: "set (builds_of (product_items c)) = set (observed_dicts ?pm)"
    if "consistent_groups ?pm"
  proof
    show "set (builds_of (product_items c)) \<subseteq> set (observed_dicts ?pm)" by (rule sub)
    from that f have "full_inv ?pm c" by simp
    then have K6: "\<forall>k d. unique_products_by_output c k = Some d \<longrightarrow> d \<in> set (stored_dicts c)"
      unfolding full_inv_def by blast
    show "set (observed_dicts ?pm) \<subseteq> set (builds_of (product_items c))"
      unfolding s using K4 K6 by blast
  qed
  show "\<forall>d\<in>set (observed_dicts (observed_maps ts)).
            unique_products_by_output c (output_key d) = Some d" by (rule K4)
  show "distinct (map output_key (builds_of (product_items c)))" by (rule d)
  show "set (builds_of (product_items c)) \<subseteq> set (observed_dicts (observed_maps ts))"
    by (rule sub)
  show "set (builds_of (product_items c)) = set (observed_dicts (observed_maps ts))"
    if "consistent_groups (observed_maps ts)" using that by (rule full)
qed

lemma first_pass_failure:
  assumes "collect_targets ts empty_collector = Inl e"
  shows "(\<exists>t\<in>set ts. evaluate t = Inl e) \<or>
     (\<exists>d\<in>set (observed_dicts (observed_maps ts)). \<exists>prev\<in>set (observed_dicts (observed_maps ts)).
        prev \<noteq> d \<and> output_key prev = output_key d \<and> e = Conflicting_rules (output_key d))"
  using collect_targets_Inl[OF assms]
proof
  assume "\<exists>t\<in>set ts. evaluate t = Inl e"
  then show ?thesis ..
next
  assume "\<exists>ts1 ts2. ts = ts1 @ ts2 \<and> collect_product_map (observed_maps ts1) empty_collector = Inl e"
  then obtain ts1 ts2 where t: "ts = ts1 @ ts2"
    "collect_product_map (observed_maps ts1) empty_collector = Inl e" by blast
  from invariants_empty have b0: "base_inv [] empty_collector" by simp
  from pass_fail[OF b0 t(2)] obtain d prev where
    c: "d \<in> set (observed_dicts (observed_maps ts1))"
    "prev \<in> set (observed_dicts (observed_maps ts1))"
    "prev \<noteq> d" "output_key prev = output_key d" "e = Conflicting_rules (output_key d)"
    by auto
  from c(1) c(2) observed_maps_prefix[of ts1 ts2] t(1)
  have "d \<in> set (observed_dicts (observed_maps ts))"
    "prev \<in> set (observed_dicts (observed_maps ts))" by auto
  with c(3) c(4) c(5) show ?thesis by blast
qed

text \<open>
  C1 as the code has it.  The first product pass keys build steps by the set of their
  output paths.  A registration is never replaced.  When the pass returns, every step
  observed is registered under its key as itself, so that steps observed under the same
  key are field for field the same; no key is emitted twice among the product groups,
  every step emitted was observed, and when items of the same target and digest come
  with the same steps (as the memoised evaluator returns them) every observed step is
  emitted exactly once.  When the pass fails, either an evaluation failed or two
  observed steps with the same key differ, and the error names that key, the shared
  outputs, and nothing else.  When all evaluations return and two observed steps with
  the same key differ, the pass fails with the conflict error.
\<close>

theorem first_pass_deduplicates:
  "(collect_ninja_dicts ds by_output flat = Inr (by_output', flat') \<and> by_output k = Some d0 \<longrightarrow>
      by_output' k = Some d0) \<and>
   (collect_targets ts empty_collector = Inr c \<longrightarrow>
      (\<forall>d\<in>set (observed_dicts (observed_maps ts)).
          unique_products_by_output c (output_key d) = Some d) \<and>
      (\<forall>d\<in>set (observed_dicts (observed_maps ts)).
        \<forall>d'\<in>set (observed_dicts (observed_maps ts)). output_key d = output_key d' \<longrightarrow> d = d') \<and>
      distinct (map output_key (builds_of (product_items c))) \<and>
      set (builds_of (product_items c)) \<subseteq> set (observed_dicts (observed_maps ts)) \<and>
      (consistent_groups (observed_maps ts) \<longrightarrow>
         (\<forall>d\<in>set (observed_dicts (observed_maps ts)).
            count_list (builds_of (product_items c)) d = 1))) \<and>
   (collect_targets ts empty_collector = Inl e \<longrightarrow>
      (\<exists>t\<in>set ts. evaluate t = Inl e) \<or>
      (\<exists>d\<in>set (observed_dicts (observed_maps ts)).
         \<exists>prev\<in>set (observed_dicts (observed_maps ts)).
           prev \<noteq> d \<and> output_key prev = output_key d \<and> e = Conflicting_rules (output_key d))) \<and>
   ((\<forall>t\<in>set ts. \<exists>pm. evaluate t = Inr pm) \<and>
    (\<exists>d\<in>set (observed_dicts (observed_maps ts)).
       \<exists>prev\<in>set (observed_dicts (observed_maps ts)).
         prev \<noteq> d \<and> output_key prev = output_key d) \<longrightarrow>
      (\<exists>K. collect_targets ts empty_collector = Inl (Conflicting_rules K)))"
proof (intro conjI impI)
  assume "collect_ninja_dicts ds by_output flat = Inr (by_output', flat') \<and> by_output k = Some d0"
  then have r: "collect_ninja_dicts ds by_output flat = Inr (by_output', flat')"
    and k: "by_output k = Some d0" by simp_all
  from collect_ninja_dicts_Inr[OF r]
  have "\<forall>k d. by_output k = Some d \<longrightarrow> by_output' k = Some d" by auto
  with k show "by_output' k = Some d0" by blast
next
  assume a: "collect_targets ts empty_collector = Inr c"
  show "\<forall>d\<in>set (observed_dicts (observed_maps ts)).
          unique_products_by_output c (output_key d) = Some d"
    by (rule first_pass_success(1)[OF a])
next
  assume a: "collect_targets ts empty_collector = Inr c"
  have reg: "\<forall>d\<in>set (observed_dicts (observed_maps ts)).
          unique_products_by_output c (output_key d) = Some d"
    by (rule first_pass_success(1)[OF a])
  show "\<forall>d\<in>set (observed_dicts (observed_maps ts)).
        \<forall>d'\<in>set (observed_dicts (observed_maps ts)). output_key d = output_key d' \<longrightarrow> d = d'"
  proof (intro ballI impI)
    fix d d' assume d: "d \<in> set (observed_dicts (observed_maps ts))"
      and d': "d' \<in> set (observed_dicts (observed_maps ts))"
      and k: "output_key d = output_key d'"
    from reg d have e1: "unique_products_by_output c (output_key d) = Some d" by (rule bspec)
    from reg d' have e2: "unique_products_by_output c (output_key d') = Some d'"
      by (rule bspec)
    from e1 have "Some d = unique_products_by_output c (output_key d)" by (rule sym)
    also have "\<dots> = unique_products_by_output c (output_key d')" by (simp only: k)
    also note e2
    finally show "d = d'" by (simp only: option.inject)
  qed
next
  assume a: "collect_targets ts empty_collector = Inr c"
  show "distinct (map output_key (builds_of (product_items c)))"
    by (rule first_pass_success(2)[OF a])
next
  assume a: "collect_targets ts empty_collector = Inr c"
  show "set (builds_of (product_items c)) \<subseteq> set (observed_dicts (observed_maps ts))"
    by (rule first_pass_success(3)[OF a])
next
  assume a: "collect_targets ts empty_collector = Inr c"
    and cons: "consistent_groups (observed_maps ts)"
  have d: "distinct (map output_key (builds_of (product_items c)))"
    by (rule first_pass_success(2)[OF a])
  have s: "set (builds_of (product_items c)) = set (observed_dicts (observed_maps ts))"
    using a cons by (rule first_pass_success(4))
  from d have "distinct (builds_of (product_items c))" by (rule distinct_map[THEN iffD1, THEN conjunct1])
  then show "\<forall>d\<in>set (observed_dicts (observed_maps ts)).
            count_list (builds_of (product_items c)) d = 1"
    unfolding s[symmetric] by (intro ballI count_list_distinct)
next
  assume "collect_targets ts empty_collector = Inl e"
  then show "(\<exists>t\<in>set ts. evaluate t = Inl e) \<or>
      (\<exists>d\<in>set (observed_dicts (observed_maps ts)).
         \<exists>prev\<in>set (observed_dicts (observed_maps ts)).
           prev \<noteq> d \<and> output_key prev = output_key d \<and> e = Conflicting_rules (output_key d))"
    by (rule first_pass_failure)
next
  assume h: "(\<forall>t\<in>set ts. \<exists>pm. evaluate t = Inr pm) \<and>
    (\<exists>d\<in>set (observed_dicts (observed_maps ts)).
       \<exists>prev\<in>set (observed_dicts (observed_maps ts)).
         prev \<noteq> d \<and> output_key prev = output_key d)"
  then obtain d prev where c: "d \<in> set (observed_dicts (observed_maps ts))"
    "prev \<in> set (observed_dicts (observed_maps ts))" "prev \<noteq> d"
    "output_key prev = output_key d" by blast
  from h have ev: "\<forall>t\<in>set ts. \<exists>pm. evaluate t = Inr pm" by simp
  show "\<exists>K. collect_targets ts empty_collector = Inl (Conflicting_rules K)"
  proof (cases "collect_targets ts empty_collector")
    case (Inr c')
    have reg: "\<forall>d\<in>set (observed_dicts (observed_maps ts)).
          unique_products_by_output c' (output_key d) = Some d"
      by (rule first_pass_success(1)[OF Inr])
    from reg c(1) have e1: "unique_products_by_output c' (output_key d) = Some d"
      by (rule bspec)
    from reg c(2) have e2: "unique_products_by_output c' (output_key prev) = Some prev"
      by (rule bspec)
    from e2 have "Some prev = unique_products_by_output c' (output_key prev)" by (rule sym)
    also have "\<dots> = unique_products_by_output c' (output_key d)" by (simp only: c(4))
    also note e1
    finally have "prev = d" by (simp only: option.inject)
    with c(3) show ?thesis by simp
  next
    case (Inl e')
    from first_pass_failure[OF Inl] show ?thesis
    proof
      assume "\<exists>t\<in>set ts. evaluate t = Inl e'"
      then obtain t where t: "t \<in> set ts" "evaluate t = Inl e'" by blast
      from ev t(1) obtain pm where "evaluate t = Inr pm" by blast
      with t(2) show ?thesis by simp
    next
      assume "\<exists>d\<in>set (observed_dicts (observed_maps ts)).
        \<exists>prev\<in>set (observed_dicts (observed_maps ts)).
          prev \<noteq> d \<and> output_key prev = output_key d \<and> e' = Conflicting_rules (output_key d)"
      then obtain d1 where "e' = Conflicting_rules (output_key d1)" by blast
      with Inl show ?thesis by simp
    qed
  qed
qed


lemma observed_maps_example_build:
  "observed_maps (concrete_targets example_build) =
     [((''//lib:L'', Some (example_env ''e1'')),
         [\<lparr>ninja_dicts = [example_dict ''foo.o'' ''cc'']\<rparr>]),
      ((''//app:B1'', None), [\<lparr>ninja_dicts = [example_dict ''b1'' ''link'']\<rparr>]),
      ((''//lib:L'', Some (example_env ''e2'')),
         [\<lparr>ninja_dicts = [example_dict ''foo.o'' ''cc'']\<rparr>,
          \<lparr>ninja_dicts = [example_dict ''bar.o'' ''cc'']\<rparr>]),
      ((''//app:B2'', None), [\<lparr>ninja_dicts = [example_dict ''b2'' ''link'']\<rparr>])]"
  by (simp add: observed_maps_def concrete_targets_def project_targets_def example_build_def
      example_concrete_def)

lemma observed_maps_example_conflict:
  "observed_maps (concrete_targets example_conflict) =
     [((''//lib:L'', Some (example_env ''e1'')),
         [\<lparr>ninja_dicts = [example_dict ''foo.o'' ''cc'']\<rparr>]),
      ((''//lib:L'', Some (example_env ''e2'')),
         [\<lparr>ninja_dicts = [example_dict ''foo.o'' ''cxx'']\<rparr>])]"
  by (simp add: observed_maps_def concrete_targets_def project_targets_def example_conflict_def
      example_concrete_def)

theorem first_pass_deduplicates_witness:
  "collect_targets (concrete_targets example_build) empty_collector = Inr example_collected \<and>
   consistent_groups (observed_maps (concrete_targets example_build)) \<and>
   count_list (builds_of (product_items example_collected)) (example_dict ''foo.o'' ''cc'') = 1 \<and>
   (\<exists>K. collect_targets (concrete_targets example_conflict) empty_collector =
      Inl (Conflicting_rules K))"
proof -
  note ok = first_pass_deduplicates [where ts = "concrete_targets example_build"
      and c = example_collected, THEN conjunct2, THEN conjunct1, THEN mp,
      OF example_build_collects]
  have cons: "consistent_groups (observed_maps (concrete_targets example_build))"
    unfolding observed_maps_example_build
    by (simp add: consistent_groups_def group_key_def example_env_def)
  have mem: "example_dict ''foo.o'' ''cc'' \<in>
      set (observed_dicts (observed_maps (concrete_targets example_build)))"
    unfolding observed_maps_example_build by (simp add: observed_dicts_def)
  from ok cons have "\<forall>d\<in>set (observed_dicts (observed_maps (concrete_targets example_build))).
      count_list (builds_of (product_items example_collected)) d = 1"
    by blast
  from this mem have once:
    "count_list (builds_of (product_items example_collected)) (example_dict ''foo.o'' ''cc'') = 1"
    by (rule bspec)
  have ev: "\<forall>t\<in>set (concrete_targets example_conflict). \<exists>pm. evaluate t = Inr pm"
    by (simp add: concrete_targets_def project_targets_def example_conflict_def
        example_concrete_def)
  have clash: "\<exists>d\<in>set (observed_dicts (observed_maps (concrete_targets example_conflict))).
       \<exists>prev\<in>set (observed_dicts (observed_maps (concrete_targets example_conflict))).
         prev \<noteq> d \<and> output_key prev = output_key d"
    unfolding observed_maps_example_conflict
    by (simp add: observed_dicts_def output_key_def example_dict_def)
  from first_pass_deduplicates [where ts = "concrete_targets example_conflict",
      THEN conjunct2, THEN conjunct2, THEN conjunct2, THEN mp, OF conjI, OF ev clash]
  have fails: "\<exists>K. collect_targets (concrete_targets example_conflict) empty_collector =
      Inl (Conflicting_rules K)" .
  from example_build_collects cons once fails show ?thesis by (intro conjI)
qed

text \<open>
  C1 as stated fails: the conflict error does not name the conflicting definitions.
  Two passes whose second definition of \<^verbatim>\<open>foo.o\<close> differs fail with the same error.
\<close>

text \<open>Two target lists that differ in the second definition of the same output.\<close>

definition example_clash :: "string \<Rightarrow> target list" where
  "example_clash r =
     [example_concrete ''B''
        [((''//lib:L'', None),
          [\<lparr>ninja_dicts = [example_dict ''foo.o'' ''cc'', example_dict ''foo.o'' r]\<rparr>])]]"

theorem conflict_error_names_definitions_counterexample:
  "collect_targets (example_clash ''cxx'') empty_collector = Inl (Conflicting_rules {''foo.o''}) \<and>
   collect_targets (example_clash ''ld'') empty_collector = Inl (Conflicting_rules {''foo.o''}) \<and>
   example_dict ''foo.o'' ''cxx'' \<noteq> example_dict ''foo.o'' ''ld''"
  by (simp add: example_clash_def example_concrete_def example_dict_def empty_collector_def
      Let_def)

end
